theory Spec2Isabelle
  imports Main "HOL-Library.Word"
begin

unbundle bit_operations_syntax

section \<open>Value tree (ujson.h, ujson.cpp: ValType, ValImpl)\<close>

text \<open>
  \<open>enum ValType : uint32_t\<close> is a bit mask; the values are the ones of the header.
  \<open>vtUsedBit\<close> is bit 31 of \<open>m_type\<close>.
\<close>

type_synonym ValType = "32 word"
type_synonym i64 = "64 word"
type_synonym i32 = "32 word"

definition vtNone :: ValType where "vtNone = 0"
definition vtNull :: ValType where "vtNull = push_bit 0 1"
definition vtBool :: ValType where "vtBool = push_bit 1 1"
definition vtInt :: ValType where "vtInt = push_bit 2 1"
definition vtF64 :: ValType where "vtF64 = push_bit 3 1"
definition vtStr :: ValType where "vtStr = push_bit 4 1"
definition vtArr :: ValType where "vtArr = push_bit 5 1"
definition vtObj :: ValType where "vtObj = push_bit 6 1"
definition vtUsedBit :: "32 word" where "vtUsedBit = push_bit 31 1"

lemmas ValType_defs =
  vtNone_def vtNull_def vtBool_def vtInt_def vtF64_def vtStr_def vtArr_def vtObj_def
  vtUsedBit_def

text \<open>
  \<open>ValImpl\<close> is a tagged union: the low bits of \<open>m_type\<close> say which member of the
  union \<open>m_data\<close> is live, and every \<open>init_*\<close> writes the two together. The union
  with its tag is the datatype \<open>Data\<close>; the remaining bit of \<open>m_type\<close>, \<open>vtUsedBit\<close>, is
  the field \<open>m_used\<close>. \<open>m_data.list\<close> points to a \<open>List\<close> (its \<open>values\<close>) for an array
  and to a \<open>Dict\<close> (\<open>values\<close> and \<open>map\<close>) for an object; the \<open>unordered_map\<close> is only
  searched by key, so it is an association list with unique keys. A \<open>const char*\<close> is
  the list of the bytes before the terminating zero. The type \<open>'f\<close> stands for
  \<open>double\<close>. The selectors \<open>data_b\<close>, \<open>data_i64\<close>, \<open>data_f64\<close> and \<open>data_str\<close> read a
  member of the union; what they give on another member is left open, as it is in C++.
\<close>

datatype 'f ValImpl =
  ValImpl (m_data: "'f Data") (m_used: bool) (m_line_no: int) (m_name: string) (m_idx: int)
and 'f Data =
    DNull
  | DBool (data_b: bool)
  | DInt (data_i64: i64)
  | DF64 (data_f64: 'f)
  | DStr (data_str: string)
  | DArr (list_values: "'f ValImpl list")
  | DObj (list_values: "'f ValImpl list") (dict_map: "(string \<times> int) list")

fun tag :: "'f Data \<Rightarrow> ValType" where
  "tag DNull = vtNull"
| "tag (DBool _) = vtBool"
| "tag (DInt _) = vtInt"
| "tag (DF64 _) = vtF64"
| "tag (DStr _) = vtStr"
| "tag (DArr _) = vtArr"
| "tag (DObj _ _) = vtObj"

definition m_type :: "'f ValImpl \<Rightarrow> 32 word" where
  "m_type v = tag (m_data v) OR (if m_used v then vtUsedBit else 0)"

definition get_type :: "'f ValImpl \<Rightarrow> ValType" where
  "get_type v = m_type v AND NOT vtUsedBit"

definition get_idx :: "'f ValImpl \<Rightarrow> int" where
  "get_idx v = m_idx v"

definition get_name :: "'f ValImpl \<Rightarrow> string" where
  "get_name v = m_name v"

definition get_line :: "'f ValImpl \<Rightarrow> int" where
  "get_line v = m_line_no v"

definition is_num :: "'f ValImpl \<Rightarrow> bool" where
  "is_num v \<longleftrightarrow> get_type v AND (vtInt OR vtF64) \<noteq> 0"

text \<open>The default member initialisers of \<open>ValImpl\<close>.\<close>

definition new_ValImpl :: "'f ValImpl" where
  "new_ValImpl = ValImpl DNull False 0 [] (-1)"

text \<open>Each \<open>init_*\<close> assigns \<open>m_type\<close> as a whole, so it also resets \<open>vtUsedBit\<close>.\<close>

definition init_bool :: "'f ValImpl \<Rightarrow> bool \<Rightarrow> 'f ValImpl" where
  "init_bool v b = ValImpl (DBool b) False (m_line_no v) (m_name v) (m_idx v)"

definition init_int :: "'f ValImpl \<Rightarrow> i64 \<Rightarrow> 'f ValImpl" where
  "init_int v n = ValImpl (DInt n) False (m_line_no v) (m_name v) (m_idx v)"

definition init_f64 :: "'f ValImpl \<Rightarrow> 'f \<Rightarrow> 'f ValImpl" where
  "init_f64 v n = ValImpl (DF64 n) False (m_line_no v) (m_name v) (m_idx v)"

definition init_str :: "'f ValImpl \<Rightarrow> string \<Rightarrow> 'f ValImpl" where
  "init_str v s = ValImpl (DStr s) False (m_line_no v) (m_name v) (m_idx v)"

definition init_arr :: "'f ValImpl \<Rightarrow> 'f ValImpl" where
  "init_arr v = ValImpl (DArr []) False (m_line_no v) (m_name v) (m_idx v)"

definition init_obj :: "'f ValImpl \<Rightarrow> 'f ValImpl" where
  "init_obj v = ValImpl (DObj [] []) False (m_line_no v) (m_name v) (m_idx v)"

definition mark_as_used :: "'f ValImpl \<Rightarrow> 'f ValImpl" where
  "mark_as_used v = ValImpl (m_data v) True (m_line_no v) (m_name v) (m_idx v)"

text \<open>
  \<open>m_data.list->values\<close>. It is read only behind a test of the tag for \<open>vtArr | vtObj\<close>;
  for the other tags the model gives the empty list.
\<close>

fun values_of :: "'f Data \<Rightarrow> 'f ValImpl list" where
  "values_of (DArr vs) = vs"
| "values_of (DObj vs _) = vs"
| "values_of _ = []"

definition ArrImpl_get_len :: "'f ValImpl \<Rightarrow> int" where
  "ArrImpl_get_len a = int (length (values_of (m_data a)))"

section \<open>Errors (ujson.h: Err and its subclasses)\<close>

text \<open>
  \<open>ErrValue\<close> copies the line, name, index and type of the value it is about. The
  exceptions are values of \<open>Err\<close>; \<open>out_of_range\<close> is the \<open>std::out_of_range\<close> of
  \<open>vector::at\<close>. \<open>Diverged\<close> is not an exception of the program: it is what the
  recursive-descent functions of the model return when their recursion budget is used
  up (see \<open>parse\<close>).
\<close>

datatype ErrValue =
  ErrValue (what: string) (line: int) (val_name: string) (val_idx: int) (val_type: ValType)

datatype 'f Err =
    ErrSyntax string int
  | ErrBadType ErrValue ValType
  | ErrBadIntRange ErrValue i64 i64
  | ErrBadF64Range ErrValue 'f 'f
  | ErrMemberNotFound ErrValue
  | ErrUnknownMember ErrValue
  | ErrBadEnum ErrValue
  | out_of_range
  | Diverged

definition mk_ErrValue :: "string \<Rightarrow> 'f ValImpl \<Rightarrow> ErrValue" where
  "mk_ErrValue msg v = ErrValue msg (get_line v) (get_name v) (get_idx v) (get_type v)"

definition mk_ErrBadType :: "'f ValImpl \<Rightarrow> ValType \<Rightarrow> 'f Err" where
  "mk_ErrBadType v expected = ErrBadType (mk_ErrValue ''bad type'' v) expected"

definition mk_ErrBadIntRange :: "'f ValImpl \<Rightarrow> i64 \<Rightarrow> i64 \<Rightarrow> 'f Err" where
  "mk_ErrBadIntRange v lo hi = ErrBadIntRange (mk_ErrValue ''bad integer range'' v) lo hi"

definition mk_ErrBadF64Range :: "'f ValImpl \<Rightarrow> 'f \<Rightarrow> 'f \<Rightarrow> 'f Err" where
  "mk_ErrBadF64Range v lo hi = ErrBadF64Range (mk_ErrValue ''bad float range'' v) lo hi"

definition mk_ErrMemberNotFound :: "'f ValImpl \<Rightarrow> string \<Rightarrow> 'f Err" where
  "mk_ErrMemberNotFound v name =
     ErrMemberNotFound (ErrValue ''member not found'' (get_line v) name (-1) vtNone)"

definition mk_ErrUnknownMember :: "'f ValImpl \<Rightarrow> 'f Err" where
  "mk_ErrUnknownMember v = ErrUnknownMember (mk_ErrValue ''unknown member'' v)"

definition mk_ErrBadEnum :: "'f ValImpl \<Rightarrow> 'f Err" where
  "mk_ErrBadEnum v = ErrBadEnum (mk_ErrValue ''unsupported value'' v)"

section \<open>Parser (ujson.cpp: class Parser)\<close>

text \<open>
  What the program takes from its platform: whether plain \<open>char\<close> is signed, \<open>strtod\<close>,
  the conversion of an \<open>int64_t\<close> to \<open>double\<close> and the comparisons of \<open>double\<close>.
  \<open>strtod s\<close> gets the bytes of the zero-terminated string and returns the value, the
  number of bytes it consumed and whether it set \<open>errno\<close> to \<open>ERANGE\<close>.
\<close>

record 'f platform =
  char_signed :: bool
  strtod :: "string \<Rightarrow> 'f \<times> nat \<times> bool"
  double_of_i64 :: "i64 \<Rightarrow> 'f"
  double_less :: "'f \<Rightarrow> 'f \<Rightarrow> bool"
  double_le :: "'f \<Rightarrow> 'f \<Rightarrow> bool"

text \<open>
  The parser reads a zero-terminated buffer through the pointer \<open>m_next\<close>. A pointer
  into the buffer is the list of the bytes from it to the end of the buffer, the
  terminating zero left out: \<open>deref\<close> reads the zero there. The parser writes the
  decoded strings into the buffer behind \<open>m_next\<close>, into bytes it never reads again;
  the model returns the decoded bytes instead.
\<close>

record Parser =
  m_next :: string
  m_line_count :: int

definition NUL :: char where "NUL = CHR 0x00"

fun deref :: "string \<Rightarrow> char" where
  "deref [] = NUL"
| "deref (c # _) = c"

definition c_str :: "string \<Rightarrow> string" where
  "c_str s = takeWhile (\<lambda>c. c \<noteq> NUL) s"

definition Parser_init :: "string \<Rightarrow> Parser" where
  "Parser_init str = \<lparr>m_next = str, m_line_count = 1\<rparr>"

definition is_digit :: "char \<Rightarrow> bool" where
  "is_digit c \<longleftrightarrow> (48::nat) \<le> of_char c \<and> of_char c \<le> (57::nat)"

text \<open>\<open>skip_text\<close>: \<open>None\<close> is the result \<open>false\<close>, which leaves \<open>m_next\<close> alone.\<close>

definition skip_text :: "string \<Rightarrow> Parser \<Rightarrow> Parser option" where
  "skip_text str ps =
     (let len = length str
      in if take len (c_str (m_next ps)) \<noteq> str then None
         else Some (ps\<lparr>m_next := drop len (m_next ps)\<rparr>))"

fun skip_to_eol_loop :: "string \<Rightarrow> int \<Rightarrow> string \<times> int" where
  "skip_to_eol_loop [] lc = ([], lc)"
| "skip_to_eol_loop (c # p) lc =
     (if c = NUL then (c # p, lc)
      else if c = CHR 0x0D then (if deref p = CHR 0x0A then tl p else p, lc + 1)
      else if c = CHR 0x0A then (p, lc + 1)
      else skip_to_eol_loop p lc)"

definition skip_to_eol :: "Parser \<Rightarrow> Parser" where
  "skip_to_eol ps =
     (case skip_to_eol_loop (m_next ps) (m_line_count ps) of
        (p, lc) \<Rightarrow> \<lparr>m_next = p, m_line_count = lc\<rparr>)"

lemma skip_to_eol_loop_length:
  "length (fst (skip_to_eol_loop s lc)) \<le> length s"
  by (induction s lc rule: skip_to_eol_loop.induct) (auto simp: le_Suc_eq)

lemma skip_to_eol_loop_shorter:
  assumes "deref s \<noteq> NUL"
  shows "length (fst (skip_to_eol_loop s lc)) < length s"
proof (cases s)
  case Nil
  with assms show ?thesis by simp
next
  case (Cons c p)
  with assms have c: "c \<noteq> NUL" by simp
  have "length (fst (skip_to_eol_loop p lc)) \<le> length p"
    by (rule skip_to_eol_loop_length)
  with Cons c show ?thesis by (auto simp: less_Suc_eq_le)
qed

lemma skip_to_eol_shorter:
  "deref (m_next ps) \<noteq> NUL \<Longrightarrow> length (m_next (skip_to_eol ps)) < length (m_next ps)"
  using skip_to_eol_loop_shorter [of "m_next ps" "m_line_count ps"]
  by (cases "skip_to_eol_loop (m_next ps) (m_line_count ps)") (simp add: skip_to_eol_def)

function skip_white_space :: "Parser \<Rightarrow> Parser" where
  "skip_white_space ps =
     (if deref (m_next ps) = CHR '' '' \<or> deref (m_next ps) = CHR 0x09
      then skip_white_space (ps\<lparr>m_next := tl (m_next ps)\<rparr>)
      else if deref (m_next ps) = CHR 0x0D \<or> deref (m_next ps) = CHR 0x0A
      then skip_white_space (skip_to_eol ps)
      else if deref (m_next ps) = CHR ''/'' \<and> deref (tl (m_next ps)) = CHR ''/''
      then skip_white_space (skip_to_eol ps)
      else ps)"
  by pat_completeness auto
termination
proof (relation "measure (\<lambda>ps. length (m_next ps))")
  show "wf (measure (\<lambda>ps. length (m_next ps)))" by simp
next
  fix ps :: Parser
  assume "deref (m_next ps) = CHR '' '' \<or> deref (m_next ps) = CHR 0x09"
  then have "m_next ps \<noteq> []" by (auto simp: NUL_def)
  then show "(ps\<lparr>m_next := tl (m_next ps)\<rparr>, ps) \<in> measure (\<lambda>ps. length (m_next ps))"
    by simp
next
  fix ps :: Parser
  assume "deref (m_next ps) = CHR 0x0D \<or> deref (m_next ps) = CHR 0x0A"
  then have "deref (m_next ps) \<noteq> NUL" by (auto simp: NUL_def)
  then show "(skip_to_eol ps, ps) \<in> measure (\<lambda>ps. length (m_next ps))"
    by (simp add: skip_to_eol_shorter)
next
  fix ps :: Parser
  assume "deref (m_next ps) = CHR ''/'' \<and> deref (tl (m_next ps)) = CHR ''/''"
  then have "deref (m_next ps) \<noteq> NUL" by (auto simp: NUL_def)
  then show "(skip_to_eol ps, ps) \<in> measure (\<lambda>ps. length (m_next ps))"
    by (simp add: skip_to_eol_shorter)
qed

declare skip_white_space.simps [simp del]

definition msg_bad_utf :: string where
  "msg_bad_utf = ''invalid string syntax: bad utf-16 codepoint''"

definition raise_bad_utf :: "Parser \<Rightarrow> 'f Err" where
  "raise_bad_utf ps = ErrSyntax msg_bad_utf (m_line_count ps)"

text \<open>
  \<open>add_val\<close>: the new value gets the current line, and under a parent the index
  \<open>get_len() - 1\<close> after the \<open>emplace_back\<close>, which is the length before it. The program
  appends the value to the parent at once and fills it in place; the model fills it
  first, and the loop that called \<open>parse_val\<close> appends it (\<open>push_back\<close>).
\<close>

definition add_val :: "'f ValImpl option \<Rightarrow> Parser \<Rightarrow> 'f ValImpl" where
  "add_val parent ps =
     ValImpl DNull False (m_line_count ps) []
       (case parent of None \<Rightarrow> -1 | Some a \<Rightarrow> ArrImpl_get_len a)"

fun push_back_data :: "'f Data \<Rightarrow> 'f ValImpl \<Rightarrow> 'f Data" where
  "push_back_data (DArr vs) v = DArr (vs @ [v])"
| "push_back_data (DObj vs m) v = DObj (vs @ [v]) m"
| "push_back_data d v = d"

definition push_back :: "'f ValImpl \<Rightarrow> 'f ValImpl \<Rightarrow> 'f ValImpl" where
  "push_back a v =
     ValImpl (push_back_data (m_data a) v) (m_used a) (m_line_no a) (m_name a) (m_idx a)"

subsection \<open>Literals\<close>

definition parse_val_null ::
  "'f ValImpl option \<Rightarrow> Parser \<Rightarrow> ('f ValImpl \<times> Parser) option" where
  "parse_val_null parent ps =
     (case skip_text ''null'' ps of
        Some ps1 \<Rightarrow> Some (add_val parent ps1, ps1)
      | None \<Rightarrow> None)"

definition parse_val_bool ::
  "'f ValImpl option \<Rightarrow> Parser \<Rightarrow> ('f ValImpl \<times> Parser) option" where
  "parse_val_bool parent ps =
     (case skip_text ''false'' ps of
        Some ps1 \<Rightarrow> Some (init_bool (add_val parent ps1) False, ps1)
      | None \<Rightarrow>
         (case skip_text ''true'' ps of
            Some ps1 \<Rightarrow> Some (init_bool (add_val parent ps1) True, ps1)
          | None \<Rightarrow> None))"

subsection \<open>Numbers\<close>

fun skip_digits :: "string \<Rightarrow> string" where
  "skip_digits [] = []"
| "skip_digits (c # p) = (if is_digit c then skip_digits p else c # p)"

definition msg_no_digits :: string where
  "msg_no_digits = ''invalid number syntax: no digits after '-'' @ [CHR 0x27]"

definition msg_leading_zero :: string where
  "msg_leading_zero =
     ''invalid number syntax: can't start with '0' if followed by another digit''"

definition msg_int_overflow :: string where
  "msg_int_overflow = ''invalid number syntax: integer doesn't fit in 64 bits''"

definition msg_float_huge :: string where
  "msg_float_huge = ''invalid number syntax: float is too huge''"

definition msg_bad_float :: string where
  "msg_bad_float = ''invalid number syntax: bad float format''"

text \<open>
  The loop that accumulates the integer in negative form: \<open>a\<close> and \<open>b\<close> are the
  constants of the source, \<open>n\<close> the running value, the comparisons are those of
  \<open>int64_t\<close> and \<open>int\<close>.
\<close>

definition int_limit_a :: i64 where
  "int_limit_a = - 922337203685477580"

fun int_loop :: "int \<Rightarrow> i64 \<Rightarrow> string \<Rightarrow> i64 option" where
  "int_loop b n [] = Some n"
| "int_loop b n (c # p) =
     (if \<not> is_digit c then Some n
      else let d = int (of_char c) - 48
           in if n <s int_limit_a \<or> n = int_limit_a \<and> d > b then None
              else int_loop b (n * 10 - word_of_int d) p)"

definition parse_val_num ::
  "'f platform \<Rightarrow> 'f ValImpl option \<Rightarrow> Parser \<Rightarrow> 'f Err + ('f ValImpl \<times> Parser) option" where
  "parse_val_num lib parent ps =
     (let negative = (deref (m_next ps) = CHR ''-'');
          num_start = (if negative then tl (m_next ps) else m_next ps);
          p = skip_digits num_start
      in if length p = length (m_next ps) then Inr None
         else if length p = length num_start
           then Inl (ErrSyntax msg_no_digits (m_line_count ps))
         else if deref num_start = CHR ''0'' \<and> length num_start - length p > 1
           then Inl (ErrSyntax msg_leading_zero (m_line_count ps))
         else
           let (is_float1, p1) =
                 (if deref p = CHR ''.'' then (True, skip_digits (tl p)) else (False, p));
               (is_float, p2) =
                 (if deref p1 = CHR ''E'' \<or> deref p1 = CHR ''e''
                  then let q = tl p1;
                           q1 = (if deref q = CHR ''+'' \<or> deref q = CHR ''-'' then tl q else q)
                       in (True, skip_digits q1)
                  else (is_float1, p1))
           in if \<not> is_float then
                (case int_loop (if negative then 8 else 7) 0 num_start of
                   None \<Rightarrow> Inl (ErrSyntax msg_int_overflow (m_line_count ps))
                 | Some n \<Rightarrow>
                     Inr (Some (init_int (add_val parent ps) (if \<not> negative then - n else n),
                                ps\<lparr>m_next := p2\<rparr>)))
              else
                (case strtod lib (c_str (m_next ps)) of
                   (n, consumed, erange) \<Rightarrow>
                     if erange then Inl (ErrSyntax msg_float_huge (m_line_count ps))
                     else if consumed \<noteq> length (m_next ps) - length p2
                       then Inl (ErrSyntax msg_bad_float (m_line_count ps))
                     else Inr (Some (init_f64 (add_val parent ps) n, ps\<lparr>m_next := p2\<rparr>))))"

subsection \<open>Strings\<close>

fun parse_hex4_loop :: "nat \<Rightarrow> 32 word \<Rightarrow> string \<Rightarrow> (32 word \<times> string) option" where
  "parse_hex4_loop 0 code p = Some (code, p)"
| "parse_hex4_loop (Suc i) code p =
     (let c = (of_char (deref p) :: nat); code1 = push_bit 4 code
      in if 48 \<le> c \<and> c \<le> 57 then parse_hex4_loop i (code1 + of_nat (c - 48)) (tl p)
         else if 65 \<le> c \<and> c \<le> 70 then parse_hex4_loop i (code1 + of_nat (c - (65 - 10))) (tl p)
         else if 97 \<le> c \<and> c \<le> 102 then parse_hex4_loop i (code1 + of_nat (c - (97 - 10))) (tl p)
         else None)"

definition parse_hex4 :: "Parser \<Rightarrow> 'f Err + (32 word \<times> Parser)" where
  "parse_hex4 ps =
     (case parse_hex4_loop 4 0 (m_next ps) of
        None \<Rightarrow> Inl (raise_bad_utf ps)
      | Some (code, p) \<Rightarrow> Inr (code, ps\<lparr>m_next := p\<rparr>))"

text \<open>
  The bytes that the last part of \<open>parse_encoding\<close> writes at \<open>str_end\<close> for a code
  point; \<open>static_cast<char>\<close> keeps the low eight bits.
\<close>

definition to_char :: "32 word \<Rightarrow> char" where
  "to_char w = char_of (unat w)"

definition encode_bytes :: "32 word \<Rightarrow> string" where
  "encode_bytes code =
     (if code \<le> 0x0007F then [to_char code]
      else if code \<le> 0x007FF then
        [to_char (0xC0 OR (drop_bit 6 code AND 0xFF)),
         to_char (0x80 OR (code AND 0x3F))]
      else if code \<le> 0x0FFFF then
        [to_char (0xE0 OR (drop_bit 12 code AND 0xFF)),
         to_char (0x80 OR (drop_bit 6 code AND 0x3F)),
         to_char (0x80 OR (code AND 0x3F))]
      else
        [to_char (0xF0 OR (drop_bit 18 code AND 0xFF)),
         to_char (0x80 OR (drop_bit 12 code AND 0x3F)),
         to_char (0x80 OR (drop_bit 6 code AND 0x3F)),
         to_char (0x80 OR (code AND 0x3F))])"

definition parse_encoding :: "Parser \<Rightarrow> 'f Err + (string \<times> Parser)" where
  "parse_encoding ps =
     (case parse_hex4 ps of
        Inl e \<Rightarrow> Inl e
      | Inr (code, ps1) \<Rightarrow>
          if code \<ge> 0xDC00 \<and> code \<le> 0xDFFF then Inl (raise_bad_utf ps1)
          else if code \<ge> 0xD800 \<and> code \<le> 0xDBFF then
            (case skip_text [CHR 0x5C, CHR ''u''] ps1 of
               None \<Rightarrow> Inl (raise_bad_utf ps1)
             | Some ps2 \<Rightarrow>
                 (case parse_hex4 ps2 of
                    Inl e \<Rightarrow> Inl e
                  | Inr (code2, ps3) \<Rightarrow>
                      if code2 < 0xDC00 \<or> code2 > 0xDFFF then Inl (raise_bad_utf ps3)
                      else Inr (encode_bytes
                                  ((push_bit 10 (code - 0xD800) OR (code2 - 0xDC00)) + 0x10000),
                                ps3)))
          else Inr (encode_bytes code, ps1))"

definition msg_line_ending :: string where
  "msg_line_ending = ''invalid string syntax: line ending before closing quotes''"

definition msg_control :: string where
  "msg_control = ''invalid string syntax: control characters not allowed''"

definition msg_bad_escape :: string where
  "msg_bad_escape = ''invalid string syntax: bad escape character''"

text \<open>\<open>c < ' '\<close> on a plain \<open>char\<close>: a byte from 0x80 on is negative where \<open>char\<close> is signed.\<close>

definition char_less_space :: "'f platform \<Rightarrow> char \<Rightarrow> bool" where
  "char_less_space lib c \<longleftrightarrow>
     (of_char c :: nat) < 32 \<or> (char_signed lib \<and> (of_char c :: nat) \<ge> 128)"

text \<open>The cases of the \<open>switch\<close> on the character after a backslash, \<open>u\<close> apart.\<close>

definition escape_char :: "char \<Rightarrow> char option" where
  "escape_char e =
     (if e = CHR 0x5C then Some (CHR 0x5C)
      else if e = CHR ''/'' then Some (CHR ''/'')
      else if e = CHR ''b'' then Some (CHR 0x08)
      else if e = CHR ''f'' then Some (CHR 0x0C)
      else if e = CHR ''n'' then Some (CHR 0x0A)
      else if e = CHR ''r'' then Some (CHR 0x0D)
      else if e = CHR ''t'' then Some (CHR 0x09)
      else None)"

lemma parse_hex4_loop_length:
  "parse_hex4_loop i code p = Some (code', p') \<Longrightarrow> length p' \<le> length p"
proof (induction i arbitrary: code p)
  case 0
  then show ?case by simp
next
  case (Suc i)
  from Suc.prems obtain code1 where "parse_hex4_loop i code1 (tl p) = Some (code', p')"
    by (auto simp: Let_def split: if_splits)
  from Suc.IH [OF this] have "length p' \<le> length (tl p)" .
  then show ?case by simp
qed

lemma parse_hex4_length:
  "parse_hex4 ps = Inr (code, ps') \<Longrightarrow> length (m_next ps') \<le> length (m_next ps)"
  by (auto simp: parse_hex4_def split: option.splits dest: parse_hex4_loop_length)

lemma skip_text_length:
  "skip_text str ps = Some ps' \<Longrightarrow> length (m_next ps') \<le> length (m_next ps)"
  by (auto simp: skip_text_def Let_def split: if_splits)

lemma parse_encoding_length:
  assumes "parse_encoding ps = Inr (bytes, ps')"
  shows "length (m_next ps') \<le> length (m_next ps)"
proof (cases "parse_hex4 ps :: 'a Err + (32 word \<times> Parser)")
  case (Inl e)
  with assms show ?thesis by (simp add: parse_encoding_def)
next
  case (Inr r)
  obtain code ps1 where r: "r = (code, ps1)" by (cases r)
  with Inr have h1: "parse_hex4 ps = (Inr (code, ps1) :: 'a Err + (32 word \<times> Parser))"
    by simp
  note l1 = parse_hex4_length [OF h1]
  show ?thesis
  proof (cases "code \<ge> 0xD800 \<and> code \<le> 0xDBFF")
    case False
    with assms h1 have "ps' = ps1"
      by (auto simp: parse_encoding_def split: if_splits)
    with l1 show ?thesis by simp
  next
    case True
    with assms h1 obtain ps2 code2 where
      h2: "skip_text [CHR 0x5C, CHR ''u''] ps1 = Some ps2" and
      h3: "parse_hex4 ps2 = (Inr (code2, ps') :: 'a Err + (32 word \<times> Parser))"
      by (auto simp: parse_encoding_def split: if_splits option.splits sum.splits)
    from skip_text_length [OF h2] parse_hex4_length [OF h3] l1 show ?thesis by simp
  qed
qed

function parse_str_loop :: "'f platform \<Rightarrow> Parser \<Rightarrow> string \<Rightarrow> 'f Err + (string \<times> Parser)" where
  "parse_str_loop lib ps out =
     (let c = deref (m_next ps); ps1 = ps\<lparr>m_next := tl (m_next ps)\<rparr>
      in if c = CHR 0x22 then Inr (out, ps1)
         else if c = CHR 0x0D \<or> c = CHR 0x0A \<or> c = NUL
           then Inl (ErrSyntax msg_line_ending (m_line_count ps))
         else if char_less_space lib c
           then Inl (ErrSyntax msg_control (m_line_count ps))
         else if c = CHR 0x5C then
           (let e = deref (m_next ps1); ps2 = ps1\<lparr>m_next := tl (m_next ps1)\<rparr>
            in if e = CHR ''u'' then
                 (case parse_encoding ps2 of
                    Inl err \<Rightarrow> Inl err
                  | Inr (bytes, ps3) \<Rightarrow> parse_str_loop lib ps3 (out @ bytes))
               else
                 (case escape_char e of
                    Some c' \<Rightarrow> parse_str_loop lib ps2 (out @ [c'])
                  | None \<Rightarrow> Inl (ErrSyntax msg_bad_escape (m_line_count ps))))
         else parse_str_loop lib ps1 (out @ [c]))"
  by pat_completeness auto
termination
proof (relation "measure (\<lambda>(lib, ps, out). length (m_next ps))", goal_cases)
  case 1
  show ?case by simp
next
  case (2 lib ps out c ps1 e ps2 r bytes ps3)
  then have "m_next ps \<noteq> []" by (auto simp: NUL_def)
  moreover from 2 have "length (m_next ps3) \<le> length (m_next ps2)"
    by (auto dest: parse_encoding_length)
  ultimately show ?case using 2 by (cases "m_next ps") auto
next
  case (3 lib ps out c ps1 e ps2 c')
  then have "m_next ps \<noteq> []" by (auto simp: NUL_def)
  with 3 show ?case by (cases "m_next ps") auto
next
  case (4 lib ps out c ps1)
  then have "m_next ps \<noteq> []" by auto
  with 4 show ?case by simp
qed

declare parse_str_loop.simps [simp del]

text \<open>
  \<open>parse_str\<close>: \<open>None\<close> is the null pointer. The string returned is zero-terminated at
  \<open>str_end\<close>, so it ends before a zero byte that a \<open>\u0000\<close> escape wrote.
\<close>

definition parse_str :: "'f platform \<Rightarrow> Parser \<Rightarrow> 'f Err + (string option \<times> Parser)" where
  "parse_str lib ps =
     (case skip_text [CHR 0x22] ps of
        None \<Rightarrow> Inr (None, ps)
      | Some ps1 \<Rightarrow>
          (case parse_str_loop lib ps1 [] of
             Inl e \<Rightarrow> Inl e
           | Inr (out, ps2) \<Rightarrow> Inr (Some (c_str out), ps2)))"

definition parse_val_str ::
  "'f platform \<Rightarrow> 'f ValImpl option \<Rightarrow> Parser \<Rightarrow> 'f Err + ('f ValImpl \<times> Parser) option" where
  "parse_val_str lib parent ps =
     (case parse_str lib ps of
        Inl e \<Rightarrow> Inl e
      | Inr (None, ps1) \<Rightarrow> Inr None
      | Inr (Some str, ps1) \<Rightarrow> Inr (Some (init_str (add_val parent ps1) str, ps1)))"

subsection \<open>Values, arrays and objects\<close>

definition msg_invalid_syntax :: string where
  "msg_invalid_syntax = ''invalid syntax''"

definition msg_invalid_value :: string where
  "msg_invalid_value = ''invalid value syntax''"

definition msg_arr_expected :: string where
  "msg_arr_expected = ''invalid array syntax: expected ',' or ']'' @ [CHR 0x27]"

definition msg_obj_name :: string where
  "msg_obj_name = ''invalid object syntax: expected member name or '}'' @ [CHR 0x27]"

definition msg_obj_colon :: string where
  "msg_obj_colon = ''invalid object syntax: expected ':' after member name''"

definition msg_obj_duplicate :: string where
  "msg_obj_duplicate = ''invalid object syntax: duplicate member name''"

definition msg_obj_expected :: string where
  "msg_obj_expected = ''invalid object syntax: expected ',' or '}'' @ [CHR 0x27]"

text \<open>
  \<open>ObjImpl::add_member(name, idx, v)\<close>, \<open>v\<close> being the element at \<open>idx\<close>:
  \<open>try_emplace\<close> adds the key unless it is there, and then the element gets its name.
  \<open>None\<close> is the result \<open>false\<close>.
\<close>

definition set_name :: "'f ValImpl \<Rightarrow> string \<Rightarrow> 'f ValImpl" where
  "set_name v name = ValImpl (m_data v) (m_used v) (m_line_no v) name (m_idx v)"

fun add_member_data :: "'f Data \<Rightarrow> string \<Rightarrow> int \<Rightarrow> 'f Data option" where
  "add_member_data (DObj vs m) name idx =
     (if map_of m name \<noteq> None then None
      else Some (DObj (vs[nat idx := set_name (vs ! nat idx) name]) (m @ [(name, idx)])))"
| "add_member_data d name idx = None"

definition add_member :: "'f ValImpl \<Rightarrow> string \<Rightarrow> int \<Rightarrow> 'f ValImpl option" where
  "add_member obj name idx =
     (case add_member_data (m_data obj) name idx of
        None \<Rightarrow> None
      | Some d \<Rightarrow> Some (ValImpl d (m_used obj) (m_line_no obj) (m_name obj) (m_idx obj)))"

text \<open>
  The recursive descent. The first argument after the platform is the recursion
  budget of the model: \<open>parse_val\<close> and the two loops give \<open>Diverged\<close> when it is used
  up. \<open>parse\<close> starts with a budget that is never used up (\<open>parse_val_enough\<close> below).
  \<open>parse_val_arr\<close> and \<open>parse_val_obj\<close> return \<open>None\<close> for the null pointer; the loops
  are the \<open>while (true)\<close> of the two functions, on the container built so far.
\<close>

function parse_val ::
    "'f platform \<Rightarrow> nat \<Rightarrow> 'f ValImpl option \<Rightarrow> Parser \<Rightarrow> 'f Err + ('f ValImpl \<times> Parser)"
  and parse_val_obj ::
    "'f platform \<Rightarrow> nat \<Rightarrow> 'f ValImpl option \<Rightarrow> Parser
       \<Rightarrow> 'f Err + ('f ValImpl \<times> Parser) option"
  and parse_val_obj_loop ::
    "'f platform \<Rightarrow> nat \<Rightarrow> 'f ValImpl \<Rightarrow> Parser \<Rightarrow> 'f Err + ('f ValImpl \<times> Parser)"
  and parse_val_arr ::
    "'f platform \<Rightarrow> nat \<Rightarrow> 'f ValImpl option \<Rightarrow> Parser
       \<Rightarrow> 'f Err + ('f ValImpl \<times> Parser) option"
  and parse_val_arr_loop ::
    "'f platform \<Rightarrow> nat \<Rightarrow> 'f ValImpl \<Rightarrow> Parser \<Rightarrow> 'f Err + ('f ValImpl \<times> Parser)"
where
  "parse_val lib 0 parent ps0 = Inl Diverged"
| "parse_val lib (Suc n) parent ps0 =
     (let ps = skip_white_space ps0
      in case parse_val_null parent ps of
           Some r \<Rightarrow> Inr r
         | None \<Rightarrow>
        (case parse_val_bool parent ps of
           Some r \<Rightarrow> Inr r
         | None \<Rightarrow>
        (case parse_val_num lib parent ps of
           Inl e \<Rightarrow> Inl e
         | Inr (Some r) \<Rightarrow> Inr r
         | Inr None \<Rightarrow>
        (case parse_val_str lib parent ps of
           Inl e \<Rightarrow> Inl e
         | Inr (Some r) \<Rightarrow> Inr r
         | Inr None \<Rightarrow>
        (case parse_val_arr lib n parent ps of
           Inl e \<Rightarrow> Inl e
         | Inr (Some r) \<Rightarrow> Inr r
         | Inr None \<Rightarrow>
        (case parse_val_obj lib n parent ps of
           Inl e \<Rightarrow> Inl e
         | Inr (Some r) \<Rightarrow> Inr r
         | Inr None \<Rightarrow> Inl (ErrSyntax msg_invalid_syntax (m_line_count ps))))))))"
| "parse_val_obj lib n parent ps =
     (case skip_text ''{'' ps of
        None \<Rightarrow> Inr None
      | Some ps1 \<Rightarrow>
          (case parse_val_obj_loop lib n (init_obj (add_val parent ps1)) ps1 of
             Inl e \<Rightarrow> Inl e
           | Inr r \<Rightarrow> Inr (Some r)))"
| "parse_val_obj_loop lib 0 obj ps0 = Inl Diverged"
| "parse_val_obj_loop lib (Suc n) obj ps0 =
     (let ps = skip_white_space ps0
      in case skip_text ''}'' ps of
           Some ps1 \<Rightarrow> Inr (obj, ps1)
         | None \<Rightarrow>
        (case parse_str lib ps of
           Inl e \<Rightarrow> Inl e
         | Inr (None, ps1) \<Rightarrow> Inl (ErrSyntax msg_obj_name (m_line_count ps1))
         | Inr (Some name, ps1) \<Rightarrow>
        (let ps2 = skip_white_space ps1
         in case skip_text '':'' ps2 of
              None \<Rightarrow> Inl (ErrSyntax msg_obj_colon (m_line_count ps2))
            | Some ps3 \<Rightarrow>
        (let ps4 = skip_white_space ps3;
             idx = ArrImpl_get_len obj
         in case parse_val lib n (Some obj) ps4 of
              Inl e \<Rightarrow> Inl e
            | Inr (v, ps5) \<Rightarrow>
        (case add_member (push_back obj v) name idx of
           None \<Rightarrow> Inl (ErrSyntax msg_obj_duplicate (m_line_count ps5))
         | Some obj1 \<Rightarrow>
        (let ps6 = skip_white_space ps5
         in case skip_text ''}'' ps6 of
              Some ps7 \<Rightarrow> Inr (obj1, ps7)
            | None \<Rightarrow>
        (case skip_text '','' ps6 of
           None \<Rightarrow> Inl (ErrSyntax msg_obj_expected (m_line_count ps6))
         | Some ps7 \<Rightarrow> parse_val_obj_loop lib n obj1 ps7)))))))"
| "parse_val_arr lib n parent ps =
     (case skip_text ''['' ps of
        None \<Rightarrow> Inr None
      | Some ps1 \<Rightarrow>
          (case parse_val_arr_loop lib n (init_arr (add_val parent ps1)) ps1 of
             Inl e \<Rightarrow> Inl e
           | Inr r \<Rightarrow> Inr (Some r)))"
| "parse_val_arr_loop lib 0 arr ps0 = Inl Diverged"
| "parse_val_arr_loop lib (Suc n) arr ps0 =
     (let ps = skip_white_space ps0
      in case skip_text '']'' ps of
           Some ps1 \<Rightarrow> Inr (arr, ps1)
         | None \<Rightarrow>
        (case parse_val lib n (Some arr) ps of
           Inl e \<Rightarrow> Inl e
         | Inr (v, ps1) \<Rightarrow>
        (let arr1 = push_back arr v;
             ps2 = skip_white_space ps1
         in case skip_text '']'' ps2 of
              Some ps3 \<Rightarrow> Inr (arr1, ps3)
            | None \<Rightarrow>
        (case skip_text '','' ps2 of
           None \<Rightarrow> Inl (ErrSyntax msg_arr_expected (m_line_count ps2))
         | Some ps3 \<Rightarrow> parse_val_arr_loop lib n arr1 ps3))))"
  by pat_completeness auto
termination
  by (relation "measure (\<lambda>x. case x of
        Inl (Inl (lib, n, parent, ps)) \<Rightarrow> 2 * n
      | Inl (Inr (lib, n, parent, ps)) \<Rightarrow> 2 * n + 1
      | Inr (Inl (lib, n, obj, ps)) \<Rightarrow> 2 * n
      | Inr (Inr (Inl (lib, n, parent, ps))) \<Rightarrow> 2 * n + 1
      | Inr (Inr (Inr (lib, n, arr, ps))) \<Rightarrow> 2 * n)") auto

text \<open>
  \<open>Parser::parse\<close> and \<open>Json::parse_in_place\<close>. Every value and every turn of a loop
  takes at least one byte, so twice the length of the input bounds the budget needed.
\<close>

definition parse :: "'f platform \<Rightarrow> Parser \<Rightarrow> 'f Err + 'f ValImpl" where
  "parse lib ps =
     (case parse_val lib (2 * length (m_next ps) + 2) None ps of
        Inl e \<Rightarrow> Inl e
      | Inr (v, ps1) \<Rightarrow>
          (let ps2 = skip_white_space ps1
           in if deref (m_next ps2) \<noteq> NUL
              then Inl (ErrSyntax msg_invalid_value (m_line_count ps2))
              else Inr v))"

definition parse_in_place :: "'f platform \<Rightarrow> string \<Rightarrow> 'f Err + 'f ValImpl" where
  "parse_in_place lib str = parse lib (Parser_init str)"

section \<open>Accessors (ujson.cpp: Val, Bool, Int, F64, Str, Arr, Obj)\<close>

text \<open>
  \<open>val_cast<T, E>\<close>: \<open>T::type()\<close> is the expected type reported in the error, \<open>E\<close> the
  mask of the accepted tags. The classes \<open>Bool\<close>, \<open>Int\<close>, \<open>F64\<close>, \<open>Str\<close>, \<open>Arr\<close> and
  \<open>Obj\<close> have no data of their own: a reference to one of them is a reference to the
  same \<open>ValImpl\<close>.
\<close>

definition val_cast :: "ValType \<Rightarrow> 32 word \<Rightarrow> 'f ValImpl \<Rightarrow> 'f Err + 'f ValImpl" where
  "val_cast T E v = (if get_type v AND E = 0 then Inl (mk_ErrBadType v T) else Inr v)"

definition as_bool :: "'f ValImpl \<Rightarrow> 'f Err + 'f ValImpl" where
  "as_bool v = val_cast vtBool vtBool v"

definition as_int :: "'f ValImpl \<Rightarrow> 'f Err + 'f ValImpl" where
  "as_int v = val_cast vtInt vtInt v"

definition as_f64 :: "'f ValImpl \<Rightarrow> 'f Err + 'f ValImpl" where
  "as_f64 v = val_cast vtF64 (vtInt OR vtF64) v"

definition as_str :: "'f ValImpl \<Rightarrow> 'f Err + 'f ValImpl" where
  "as_str v = val_cast vtStr vtStr v"

definition as_arr :: "'f ValImpl \<Rightarrow> 'f Err + 'f ValImpl" where
  "as_arr v = val_cast vtArr vtArr v"

definition as_obj :: "'f ValImpl \<Rightarrow> 'f Err + 'f ValImpl" where
  "as_obj v = val_cast vtObj vtObj v"

definition Bool_get :: "'f ValImpl \<Rightarrow> bool" where
  "Bool_get this = data_b (m_data this)"

definition Int_get :: "'f ValImpl \<Rightarrow> i64" where
  "Int_get this = data_i64 (m_data this)"

definition Int_get_range :: "'f ValImpl \<Rightarrow> i64 \<Rightarrow> i64 \<Rightarrow> 'f Err + i64" where
  "Int_get_range this lo hi =
     (let num = Int_get this
      in if lo \<le>s hi \<and> (num <s lo \<or> hi <s num) then Inl (mk_ErrBadIntRange this lo hi)
         else Inr num)"

definition INT32_MIN :: i32 where "INT32_MIN = - 2147483648"
definition INT32_MAX :: i32 where "INT32_MAX = 2147483647"

text \<open>
  An \<open>int32_t\<close> bound becomes an \<open>int64_t\<close> by sign extension (\<open>scast\<close>);
  \<open>static_cast<int32_t>\<close> keeps the low 32 bits (\<open>ucast\<close>).
\<close>

definition Int_get_i32_full :: "'f ValImpl \<Rightarrow> 'f Err + i32" where
  "Int_get_i32_full this =
     (case Int_get_range this (scast INT32_MIN) (scast INT32_MAX) of
        Inl e \<Rightarrow> Inl e
      | Inr num \<Rightarrow> Inr (ucast num))"

definition Int_get_i32 :: "'f ValImpl \<Rightarrow> i32 \<Rightarrow> i32 \<Rightarrow> 'f Err + i32" where
  "Int_get_i32 this lo0 hi0 =
     (let (lo, hi) = (if hi0 <s lo0 then (INT32_MIN, INT32_MAX) else (lo0, hi0))
      in case Int_get_range this (scast lo) (scast hi) of
           Inl e \<Rightarrow> Inl e
         | Inr num \<Rightarrow> Inr (ucast num))"

definition F64_get :: "'f platform \<Rightarrow> 'f ValImpl \<Rightarrow> 'f" where
  "F64_get lib this =
     (if vtInt AND get_type this \<noteq> 0 then double_of_i64 lib (data_i64 (m_data this))
      else data_f64 (m_data this))"

definition F64_get_range :: "'f platform \<Rightarrow> 'f ValImpl \<Rightarrow> 'f \<Rightarrow> 'f \<Rightarrow> 'f Err + 'f" where
  "F64_get_range lib this lo hi =
     (let num = F64_get lib this
      in if double_le lib lo hi \<and> (double_less lib num lo \<or> double_less lib hi num)
         then Inl (mk_ErrBadF64Range this lo hi)
         else Inr num)"

definition Str_get :: "'f ValImpl \<Rightarrow> string" where
  "Str_get this = data_str (m_data this)"

fun get_enum_idx_loop :: "string \<Rightarrow> string list \<Rightarrow> int \<Rightarrow> int option" where
  "get_enum_idx_loop str [] i = None"
| "get_enum_idx_loop str (s # str_set) i =
     (if str = s then Some i else get_enum_idx_loop str str_set (i + 1))"

definition Str_get_enum_idx :: "'f ValImpl \<Rightarrow> string list \<Rightarrow> 'f Err + int" where
  "Str_get_enum_idx this str_set =
     (case get_enum_idx_loop (Str_get this) str_set 0 of
        Some i \<Rightarrow> Inr i
      | None \<Rightarrow> Inl (mk_ErrBadEnum this))"

subsection \<open>Arrays\<close>

text \<open>
  \<open>ArrImpl::get_element\<close> is \<open>vector::at\<close>: the \<open>int32_t\<close> index is converted to
  \<open>size_t\<close>, so a negative index is out of range as well.
\<close>

definition ArrImpl_get_element :: "'f ValImpl \<Rightarrow> int \<Rightarrow> 'f Err + 'f ValImpl" where
  "ArrImpl_get_element a idx =
     (if 0 \<le> idx \<and> idx < ArrImpl_get_len a then Inr (values_of (m_data a) ! nat idx)
      else Inl out_of_range)"

definition Arr_get_len :: "'f ValImpl \<Rightarrow> int" where
  "Arr_get_len this = ArrImpl_get_len this"

text \<open>
  The accessors are \<open>const\<close>, and yet they write: \<open>mark_as_used\<close> sets a bit of the
  \<open>mutable\<close> field \<open>m_type\<close> of an element, which lives in the vector of its parent. An
  accessor that marks returns, next to its result, the container \<open>this\<close> as it is after
  the call; \<open>set_values\<close> puts the vector back. An exception thrown after the mark
  leaves the mark in place.
\<close>

fun set_values_data :: "'f Data \<Rightarrow> 'f ValImpl list \<Rightarrow> 'f Data" where
  "set_values_data (DArr _) vs = DArr vs"
| "set_values_data (DObj _ m) vs = DObj vs m"
| "set_values_data d vs = d"

definition set_values :: "'f ValImpl \<Rightarrow> 'f ValImpl list \<Rightarrow> 'f ValImpl" where
  "set_values a vs =
     ValImpl (set_values_data (m_data a) vs) (m_used a) (m_line_no a) (m_name a) (m_idx a)"

definition Arr_get_element :: "'f ValImpl \<Rightarrow> int \<Rightarrow> ('f Err + 'f ValImpl) \<times> 'f ValImpl" where
  "Arr_get_element this idx =
     (case ArrImpl_get_element this idx of
        Inl e \<Rightarrow> (Inl e, this)
      | Inr v \<Rightarrow>
          (let v1 = mark_as_used v
           in (Inr v1, set_values this ((values_of (m_data this))[nat idx := v1]))))"

text \<open>\<open>x.f()\<close> on the result \<open>x\<close> of an accessor, for a member function \<open>f\<close> that only reads.\<close>

definition and_then :: "('f Err + 'a) \<Rightarrow> ('a \<Rightarrow> 'f Err + 'b) \<Rightarrow> 'f Err + 'b" where
  "and_then r f = (case r of Inl e \<Rightarrow> Inl e | Inr x \<Rightarrow> f x)"

definition Arr_get_bool :: "'f ValImpl \<Rightarrow> int \<Rightarrow> ('f Err + bool) \<times> 'f ValImpl" where
  "Arr_get_bool this idx =
     (case Arr_get_element this idx of
        (r, this1) \<Rightarrow> (and_then (and_then r as_bool) (\<lambda>x. Inr (Bool_get x)), this1))"

definition Arr_get_i32 ::
  "'f ValImpl \<Rightarrow> int \<Rightarrow> i32 \<Rightarrow> i32 \<Rightarrow> ('f Err + i32) \<times> 'f ValImpl" where
  "Arr_get_i32 this idx lo hi =
     (case Arr_get_element this idx of
        (r, this1) \<Rightarrow> (and_then (and_then r as_int) (\<lambda>x. Int_get_i32 x lo hi), this1))"

definition Arr_get_i64 ::
  "'f ValImpl \<Rightarrow> int \<Rightarrow> i64 \<Rightarrow> i64 \<Rightarrow> ('f Err + i64) \<times> 'f ValImpl" where
  "Arr_get_i64 this idx lo hi =
     (case Arr_get_element this idx of
        (r, this1) \<Rightarrow> (and_then (and_then r as_int) (\<lambda>x. Int_get_range x lo hi), this1))"

definition Arr_get_f64 ::
  "'f platform \<Rightarrow> 'f ValImpl \<Rightarrow> int \<Rightarrow> 'f \<Rightarrow> 'f \<Rightarrow> ('f Err + 'f) \<times> 'f ValImpl" where
  "Arr_get_f64 lib this idx lo hi =
     (case Arr_get_element this idx of
        (r, this1) \<Rightarrow> (and_then (and_then r as_f64) (\<lambda>x. F64_get_range lib x lo hi), this1))"

definition Arr_get_str :: "'f ValImpl \<Rightarrow> int \<Rightarrow> ('f Err + string) \<times> 'f ValImpl" where
  "Arr_get_str this idx =
     (case Arr_get_element this idx of
        (r, this1) \<Rightarrow> (and_then (and_then r as_str) (\<lambda>x. Inr (Str_get x)), this1))"

definition Arr_get_arr :: "'f ValImpl \<Rightarrow> int \<Rightarrow> ('f Err + 'f ValImpl) \<times> 'f ValImpl" where
  "Arr_get_arr this idx =
     (case Arr_get_element this idx of (r, this1) \<Rightarrow> (and_then r as_arr, this1))"

definition Arr_get_obj :: "'f ValImpl \<Rightarrow> int \<Rightarrow> ('f Err + 'f ValImpl) \<times> 'f ValImpl" where
  "Arr_get_obj this idx =
     (case Arr_get_element this idx of (r, this1) \<Rightarrow> (and_then r as_obj, this1))"

subsection \<open>Objects\<close>

definition ObjImpl_find :: "'f ValImpl \<Rightarrow> string \<Rightarrow> int" where
  "ObjImpl_find obj name =
     (case map_of (dict_map (m_data obj)) name of Some i \<Rightarrow> i | None \<Rightarrow> -1)"

definition Obj_get_member_idx :: "'f ValImpl \<Rightarrow> string \<Rightarrow> bool \<Rightarrow> 'f Err + int" where
  "Obj_get_member_idx this name required =
     (let idx = ObjImpl_find this name
      in if required \<and> idx < 0 then Inl (mk_ErrMemberNotFound this name) else Inr idx)"

definition Obj_get_member_name :: "'f ValImpl \<Rightarrow> int \<Rightarrow> 'f Err + string" where
  "Obj_get_member_name this idx =
     (case ArrImpl_get_element this idx of
        Inl e \<Rightarrow> Inl e
      | Inr v \<Rightarrow> Inr (get_name v))"

text \<open>\<open>Obj::get_member\<close> returns a pointer: \<open>None\<close> is the null pointer.\<close>

definition Obj_get_member ::
  "'f ValImpl \<Rightarrow> string \<Rightarrow> bool \<Rightarrow> ('f Err + 'f ValImpl option) \<times> 'f ValImpl" where
  "Obj_get_member this name required =
     (case Obj_get_member_idx this name required of
        Inl e \<Rightarrow> (Inl e, this)
      | Inr idx \<Rightarrow>
          if idx \<ge> 0
          then (case Arr_get_element this idx of
                  (r, this1) \<Rightarrow> (and_then r (\<lambda>v. Inr (Some v)), this1))
          else (Inr None, this))"

text \<open>
  The typed getters take a pointer to a default, \<open>None\<close> for the null pointer; the
  member is required when there is no default. \<open>typed_member\<close> is their common shape
  \<open>v ? v->as_T().get(...) : *def\<close>.
\<close>

definition typed_member ::
  "('f Err + 'f ValImpl option) \<Rightarrow> ('f ValImpl \<Rightarrow> 'f Err + 'a) \<Rightarrow> 'a option \<Rightarrow> 'f Err + 'a" where
  "typed_member r f def =
     and_then r (\<lambda>v. case v of Some x \<Rightarrow> f x | None \<Rightarrow> Inr (the def))"

definition Obj_get_bool ::
  "'f ValImpl \<Rightarrow> string \<Rightarrow> bool option \<Rightarrow> ('f Err + bool) \<times> 'f ValImpl" where
  "Obj_get_bool this name def =
     (case Obj_get_member this name (def = None) of
        (r, this1) \<Rightarrow>
          (typed_member r (\<lambda>x. and_then (as_bool x) (\<lambda>y. Inr (Bool_get y))) def, this1))"

definition Obj_get_i32 ::
  "'f ValImpl \<Rightarrow> string \<Rightarrow> i32 \<Rightarrow> i32 \<Rightarrow> i32 option \<Rightarrow> ('f Err + i32) \<times> 'f ValImpl" where
  "Obj_get_i32 this name lo hi def =
     (case Obj_get_member this name (def = None) of
        (r, this1) \<Rightarrow>
          (typed_member r (\<lambda>x. and_then (as_int x) (\<lambda>y. Int_get_i32 y lo hi)) def, this1))"

definition Obj_get_i64 ::
  "'f ValImpl \<Rightarrow> string \<Rightarrow> i64 \<Rightarrow> i64 \<Rightarrow> i64 option \<Rightarrow> ('f Err + i64) \<times> 'f ValImpl" where
  "Obj_get_i64 this name lo hi def =
     (case Obj_get_member this name (def = None) of
        (r, this1) \<Rightarrow>
          (typed_member r (\<lambda>x. and_then (as_int x) (\<lambda>y. Int_get_range y lo hi)) def, this1))"

definition Obj_get_f64 ::
  "'f platform \<Rightarrow> 'f ValImpl \<Rightarrow> string \<Rightarrow> 'f \<Rightarrow> 'f \<Rightarrow> 'f option
     \<Rightarrow> ('f Err + 'f) \<times> 'f ValImpl" where
  "Obj_get_f64 lib this name lo hi def =
     (case Obj_get_member this name (def = None) of
        (r, this1) \<Rightarrow>
          (typed_member r (\<lambda>x. and_then (as_f64 x) (\<lambda>y. F64_get_range lib y lo hi)) def,
           this1))"

definition Obj_get_str ::
  "'f ValImpl \<Rightarrow> string \<Rightarrow> string option \<Rightarrow> ('f Err + string option) \<times> 'f ValImpl" where
  "Obj_get_str this name def =
     (case Obj_get_member this name (def = None) of
        (r, this1) \<Rightarrow>
          (and_then r (\<lambda>v. case v of
                              Some x \<Rightarrow> and_then (as_str x) (\<lambda>y. Inr (Some (Str_get y)))
                            | None \<Rightarrow> Inr def),
           this1))"

definition Obj_get_str_enum_idx ::
  "'f ValImpl \<Rightarrow> string \<Rightarrow> string list \<Rightarrow> bool \<Rightarrow> ('f Err + int) \<times> 'f ValImpl" where
  "Obj_get_str_enum_idx this name str_set required =
     (case Obj_get_member this name required of
        (r, this1) \<Rightarrow>
          (and_then r (\<lambda>v. case v of
                              None \<Rightarrow> Inr (-1)
                            | Some x \<Rightarrow>
                                and_then (as_str x) (\<lambda>y. Str_get_enum_idx y str_set)),
           this1))"

text \<open>
  \<open>Obj::get_arr\<close> and \<open>Obj::get_obj\<close> call \<open>get_member(name)\<close>, \<open>required\<close> being \<open>true\<close> by
  default, so the pointer they dereference is never null.
\<close>

definition Obj_get_arr :: "'f ValImpl \<Rightarrow> string \<Rightarrow> ('f Err + 'f ValImpl) \<times> 'f ValImpl" where
  "Obj_get_arr this name =
     (case Obj_get_member this name True of
        (r, this1) \<Rightarrow> (and_then r (\<lambda>v. as_arr (the v)), this1))"

definition Obj_get_obj :: "'f ValImpl \<Rightarrow> string \<Rightarrow> ('f Err + 'f ValImpl) \<times> 'f ValImpl" where
  "Obj_get_obj this name =
     (case Obj_get_member this name True of
        (r, this1) \<Rightarrow> (and_then r (\<lambda>v. as_obj (the v)), this1))"

subsection \<open>Rejecting and ignoring members\<close>

lemma size_list_values_of:
  "size_list size (values_of (m_data a)) < size a"
proof (cases a)
  case (ValImpl d u l n i)
  have "size_list size (values_of d) \<le> size d"
    by (cases d) simp_all
  with ValImpl show ?thesis by simp
qed

text \<open>
  \<open>do_reject_unknow_members\<close>; the \<open>for\<close> loop over the elements of \<open>arr\<close> is
  \<open>reject_loop\<close>, on the elements from position \<open>i\<close> on.
\<close>

function do_reject_unknow_members :: "'f ValImpl \<Rightarrow> 'f Err + unit"
  and reject_loop :: "'f ValImpl \<Rightarrow> 'f ValImpl list \<Rightarrow> 'f Err + unit"
where
  "do_reject_unknow_members v =
     (if get_type v AND (vtArr OR vtObj) \<noteq> 0 then reject_loop v (values_of (m_data v))
      else Inr ())"
| "reject_loop arr [] = Inr ()"
| "reject_loop arr (v # vs) =
     (if 0 = (m_type v AND vtUsedBit) \<and> get_type arr AND vtObj \<noteq> 0
      then Inl (mk_ErrUnknownMember v)
      else case do_reject_unknow_members v of
             Inl e \<Rightarrow> Inl e
           | Inr _ \<Rightarrow> reject_loop arr vs)"
  by pat_completeness auto
termination
  by (relation "measure (\<lambda>x. case x of
        Inl v \<Rightarrow> 2 * size v + 1
      | Inr (arr, vs) \<Rightarrow> 2 * size_list size vs)")
     (auto simp: less_Suc_eq_le intro: less_imp_le [OF size_list_values_of])

definition reject_unknow_members :: "'f ValImpl \<Rightarrow> 'f Err + unit" where
  "reject_unknow_members this = do_reject_unknow_members this"

lemma size_mark_as_used [simp]: "size (mark_as_used v) = size v"
  by (cases v) (simp add: mark_as_used_def)

text \<open>
  \<open>do_ignore_members\<close> returns \<open>v\<close> as it is after the call; \<open>ignore_loop\<close> is its \<open>for\<close>
  loop, which marks each element and then descends into it.
\<close>

function do_ignore_members :: "'f ValImpl \<Rightarrow> 'f ValImpl"
  and ignore_loop :: "'f ValImpl list \<Rightarrow> 'f ValImpl list"
where
  "do_ignore_members v =
     (if get_type v AND (vtArr OR vtObj) \<noteq> 0
      then set_values v (ignore_loop (values_of (m_data v)))
      else v)"
| "ignore_loop [] = []"
| "ignore_loop (v # vs) = do_ignore_members (mark_as_used v) # ignore_loop vs"
  by pat_completeness auto
termination
  by (relation "measure (\<lambda>x. case x of
        Inl v \<Rightarrow> 2 * size v + 1
      | Inr vs \<Rightarrow> 2 * size_list size vs)")
     (auto simp: less_Suc_eq_le intro: less_imp_le [OF size_list_values_of])

definition ignore_members :: "'f ValImpl \<Rightarrow> 'f ValImpl" where
  "ignore_members this = do_ignore_members this"

declare do_reject_unknow_members.simps [simp del]
declare do_ignore_members.simps [simp del]

section \<open>A platform for the closed examples\<close>

text \<open>
  The examples below are evaluated on this platform: \<open>char\<close> is signed, a \<open>double\<close> is
  stood for by an integer, and \<open>strtod\<close> takes the whole string and returns its length.
  The theorems themselves hold for every platform.
\<close>

definition example_platform :: "int platform" where
  "example_platform =
     \<lparr>char_signed = True,
      strtod = (\<lambda>s. (int (length s), length s, False)),
      double_of_i64 = sint,
      double_less = (<),
      double_le = (\<le>)\<rparr>"

section \<open>The decimal rendering of an integer\<close>

text \<open>
  The program has no function that writes a number. \<open>render_i64\<close> is the usual decimal
  rendering of the spec's round-trip property (what \<open>std::to_string\<close> prints): a minus
  sign for a negative number, then the digits of the magnitude without leading zeros.
  It is a definition of the specification, not code of the repository.
\<close>

definition digit_char :: "nat \<Rightarrow> char" where
  "digit_char k = char_of (48 + k)"

fun render_nat :: "nat \<Rightarrow> string" where
  "render_nat n =
     (if n < 10 then [digit_char n] else render_nat (n div 10) @ [digit_char (n mod 10)])"

declare render_nat.simps [simp del]

definition render_i64 :: "i64 \<Rightarrow> string" where
  "render_i64 n =
     (if sint n < 0 then CHR ''-'' # render_nat (nat (- sint n)) else render_nat (nat (sint n)))"

section \<open>Integer tokens\<close>

text \<open>
  The value of the accumulation loop on unbounded integers: \<open>acc_val N ds\<close> is what
  \<open>n = n * 10 - d\<close> makes of \<open>N\<close> over the digits \<open>ds\<close>; \<open>int_limit b\<close> is \<open>a * 10 - b\<close>.
\<close>

definition number_start :: "char \<Rightarrow> bool" where
  "number_start c \<longleftrightarrow> c = CHR ''-'' \<or> is_digit c"

definition not_float_mark :: "char \<Rightarrow> bool" where
  "not_float_mark c \<longleftrightarrow> c \<noteq> CHR ''.'' \<and> c \<noteq> CHR ''E'' \<and> c \<noteq> CHR ''e''"

definition digit_val :: "char \<Rightarrow> int" where
  "digit_val c = int (of_char c) - 48"

fun acc_val :: "int \<Rightarrow> string \<Rightarrow> int" where
  "acc_val N [] = N"
| "acc_val N (c # cs) = acc_val (N * 10 - digit_val c) cs"

definition int_limit :: "int \<Rightarrow> int" where
  "int_limit b = - 9223372036854775800 - b"

lemma skip_text_hd_None:
  assumes "str \<noteq> []" and "deref (m_next ps) \<noteq> hd str"
  shows "skip_text str ps = None"
proof -
  obtain a as where str: "str = a # as" using assms(1) by (cases str) auto
  show ?thesis
  proof (cases "m_next ps")
    case Nil
    with str show ?thesis by (simp add: skip_text_def c_str_def)
  next
    case (Cons c cs)
    with assms(2) str have "c \<noteq> a" by simp
    with Cons str show ?thesis by (simp add: skip_text_def c_str_def)
  qed
qed

lemma skip_white_space_id:
  assumes "deref (m_next ps) \<noteq> CHR '' ''" "deref (m_next ps) \<noteq> CHR 0x09"
    "deref (m_next ps) \<noteq> CHR 0x0D" "deref (m_next ps) \<noteq> CHR 0x0A"
    "deref (m_next ps) \<noteq> CHR ''/''"
  shows "skip_white_space ps = ps"
  using assms by (subst skip_white_space.simps) simp

lemma number_start_neq:
  assumes "number_start c"
  shows "c \<noteq> CHR '' ''" "c \<noteq> CHR 0x09" "c \<noteq> CHR 0x0D" "c \<noteq> CHR 0x0A" "c \<noteq> CHR ''/''"
    "c \<noteq> CHR ''n''" "c \<noteq> CHR ''f''" "c \<noteq> CHR ''t''" "c \<noteq> NUL"
  using assms by (auto simp: number_start_def is_digit_def NUL_def)

lemma skip_white_space_number:
  "number_start (deref (m_next ps)) \<Longrightarrow> skip_white_space ps = ps"
  by (rule skip_white_space_id) (simp_all add: number_start_neq)

lemma parse_val_null_number:
  "number_start (deref (m_next ps)) \<Longrightarrow> parse_val_null parent ps = None"
  by (simp add: parse_val_null_def skip_text_hd_None number_start_neq)

lemma parse_val_bool_number:
  "number_start (deref (m_next ps)) \<Longrightarrow> parse_val_bool parent ps = None"
  by (simp add: parse_val_bool_def skip_text_hd_None number_start_neq)

lemma parse_val_number:
  assumes "number_start (deref (m_next ps))"
    and "parse_val_num lib parent ps = r" and "r \<noteq> Inr None"
  shows "parse_val lib (Suc n) parent ps =
           (case r of Inl e \<Rightarrow> Inl e | Inr x \<Rightarrow> Inr (the x))"
  using assms
  by (auto simp: skip_white_space_number parse_val_null_number parse_val_bool_number
      split: sum.splits option.splits)

lemma skip_white_space_end:
  "deref (m_next ps) = NUL \<Longrightarrow> skip_white_space ps = ps"
  by (rule skip_white_space_id) (auto simp: NUL_def)



lemma skip_digits_stop:
  "\<not> is_digit (deref p) \<Longrightarrow> skip_digits p = p"
  by (cases p) simp_all

lemma skip_digits_append:
  "\<forall>c\<in>set ds. is_digit c \<Longrightarrow> \<not> is_digit (deref rest) \<Longrightarrow> skip_digits (ds @ rest) = rest"
  by (induction ds) (simp_all add: skip_digits_stop)

lemma parse_val_num_int:
  assumes ds: "ds \<noteq> []" "\<forall>c\<in>set ds. is_digit c"
    and rest: "\<not> is_digit (deref rest)" "not_float_mark (deref rest)"
    and zero: "hd ds = CHR ''0'' \<longrightarrow> length ds = 1"
    and tok: "m_next ps = (if neg then CHR ''-'' # ds else ds) @ rest"
  shows "parse_val_num lib parent ps =
     (case int_loop (if neg then 8 else 7) 0 (ds @ rest) of
        None \<Rightarrow> Inl (ErrSyntax msg_int_overflow (m_line_count ps))
      | Some n \<Rightarrow> Inr (Some (init_int (add_val parent ps) (if \<not> neg then - n else n),
                             ps\<lparr>m_next := rest\<rparr>)))"
proof -
  obtain d ds' where dsc: "ds = d # ds'" using ds(1) by (cases ds) auto
  with ds(2) have d: "is_digit d" by simp
  then have dm: "d \<noteq> CHR ''-''" by (auto simp: is_digit_def)
  have negative: "(deref (m_next ps) = CHR ''-'') = neg"
    using tok dsc dm by simp
  have num_start: "(if neg then tl (m_next ps) else m_next ps) = ds @ rest"
    using tok by simp
  have p: "skip_digits (ds @ rest) = rest"
    using ds(2) rest(1) by (rule skip_digits_append)
  have l1: "length rest \<noteq> length (m_next ps)" using tok ds(1) by auto
  have l2: "length rest \<noteq> length (ds @ rest)" using ds(1) by simp
  have l3: "\<not> (deref (ds @ rest) = CHR ''0'' \<and> length (ds @ rest) - length rest > 1)"
    using zero dsc by auto
  from rest(2) have nf: "deref rest \<noteq> CHR ''.''" "deref rest \<noteq> CHR ''E''" "deref rest \<noteq> CHR ''e''"
    by (simp_all add: not_float_mark_def)
  show ?thesis
    unfolding parse_val_num_def negative num_start Let_def p
    using l1 l2 l3 nf by (auto split: option.splits)
qed


lemma digit_val_range: "is_digit c \<Longrightarrow> 0 \<le> digit_val c \<and> digit_val c \<le> 9"
  by (auto simp: is_digit_def digit_val_def)

lemma acc_val_le:
  "\<forall>c\<in>set ds. is_digit c \<Longrightarrow> N \<le> 0 \<Longrightarrow> acc_val N ds \<le> N"
proof (induction ds arbitrary: N)
  case Nil
  then show ?case by simp
next
  case (Cons c cs)
  from Cons.prems have d: "0 \<le> digit_val c" by (simp add: digit_val_range)
  with Cons.prems have "N * 10 - digit_val c \<le> N" by simp
  moreover from this Cons.prems have "acc_val (N * 10 - digit_val c) cs \<le> N * 10 - digit_val c"
    by (intro Cons.IH) auto
  ultimately show ?case by simp
qed

lemma sint_i64_of_int:
  "- 9223372036854775808 \<le> N \<Longrightarrow> N \<le> 9223372036854775807 \<Longrightarrow> sint (word_of_int N :: i64) = N"
  by (simp add: sint_sbintrunc' signed_take_bit_int_eq_self)

lemma int_loop_Cons:
  "is_digit c \<Longrightarrow> int_loop b n (c # p) =
     (if n <s int_limit_a \<or> n = int_limit_a \<and> digit_val c > b then None
      else int_loop b (n * 10 - word_of_int (digit_val c)) p)"
  by (simp add: Let_def digit_val_def)

lemma int_loop_acc_val:
  assumes "\<forall>c\<in>set ds. is_digit c" and "\<not> is_digit (deref rest)"
    and "b = 7 \<or> b = 8" and "int_limit b \<le> N" and "N \<le> 0"
  shows "int_loop b (word_of_int N) (ds @ rest) =
           (if int_limit b \<le> acc_val N ds then Some (word_of_int (acc_val N ds)) else None)"
  using assms
proof (induction ds arbitrary: N)
  case Nil
  then show ?case by (cases rest) simp_all
next
  case (Cons c cs)
  let ?d = "digit_val c"
  let ?N' = "N * 10 - ?d"
  from Cons.prems have c: "is_digit c" and cs: "\<forall>c\<in>set cs. is_digit c" by simp_all
  from c have d: "0 \<le> ?d" "?d \<le> 9" by (simp_all add: digit_val_range)
  from Cons.prems have N: "- 9223372036854775808 \<le> N" "N \<le> 9223372036854775807"
    by (auto simp: int_limit_def)
  have sN: "sint (word_of_int N :: i64) = N" using N by (rule sint_i64_of_int)
  have eqa: "(word_of_int N :: i64) = int_limit_a \<longleftrightarrow> N = - 922337203685477580"
  proof
    assume "(word_of_int N :: i64) = int_limit_a"
    then have "sint (word_of_int N :: i64) = sint int_limit_a" by simp
    then show "N = - 922337203685477580" by (simp add: sN int_limit_a_def)
  next
    assume "N = - 922337203685477580"
    then show "(word_of_int N :: i64) = int_limit_a" by (simp add: int_limit_a_def)
  qed
  have lta: "(word_of_int N :: i64) <s int_limit_a \<longleftrightarrow> N < - 922337203685477580"
    by (simp add: word_sless_alt sN int_limit_a_def)
  have guard: "((word_of_int N :: i64) <s int_limit_a \<or> (word_of_int N :: i64) = int_limit_a \<and> ?d > b)
                 \<longleftrightarrow> ?N' < int_limit b"
    unfolding eqa lta using d Cons.prems(3) by (auto simp: int_limit_def)
  have step: "(word_of_int N :: i64) * 10 - word_of_int ?d = word_of_int ?N'"
    by simp
  show ?case
  proof (cases "?N' < int_limit b")
    case True
    have "acc_val ?N' cs \<le> ?N'"
      using cs by (rule acc_val_le) (use Cons.prems d in auto)
    with True have "\<not> int_limit b \<le> acc_val N (c # cs)" by simp
    moreover have "int_loop b (word_of_int N) ((c # cs) @ rest) = None"
      using guard True by (simp only: append_Cons int_loop_Cons [OF c] if_True)
    ultimately show ?thesis by simp
  next
    case False
    then have lim: "int_limit b \<le> ?N'" by simp
    have le0: "?N' \<le> 0" using Cons.prems d by simp
    have "int_loop b (word_of_int N) ((c # cs) @ rest) =
            int_loop b (word_of_int N * 10 - word_of_int ?d) (cs @ rest)"
      using guard False by (simp only: append_Cons int_loop_Cons [OF c] if_False)
    also have "\<dots> = int_loop b (word_of_int ?N') (cs @ rest)"
      by (simp only: step)
    also have "\<dots> = (if int_limit b \<le> acc_val ?N' cs then Some (word_of_int (acc_val ?N' cs)) else None)"
      using cs Cons.prems(2,3) lim le0 by (rule Cons.IH)
    finally show ?thesis by simp
  qed
qed


lemma digit_char_digit: "k < 10 \<Longrightarrow> is_digit (digit_char k)"
  by (simp add: is_digit_def digit_char_def)

lemma digit_val_digit_char: "k < 10 \<Longrightarrow> digit_val (digit_char k) = int k"
  by (simp add: digit_val_def digit_char_def)

lemma render_nat_digits: "\<forall>c\<in>set (render_nat n). is_digit c"
proof (induction n rule: render_nat.induct)
  case (1 n)
  show ?case
  proof (cases "n < 10")
    case True
    then show ?thesis by (subst render_nat.simps) (simp add: digit_char_digit)
  next
    case False
    with 1 show ?thesis by (subst render_nat.simps) (simp add: digit_char_digit)
  qed
qed

lemma render_nat_nonempty: "render_nat n \<noteq> []"
  by (subst render_nat.simps) simp

lemma render_nat_hd_zero: "hd (render_nat n) = CHR ''0'' \<Longrightarrow> n = 0"
proof (induction n rule: render_nat.induct)
  case (1 n)
  show ?case
  proof (cases "n < 10")
    case True
    with "1.prems" have "digit_char n = CHR ''0''" by (subst (asm) render_nat.simps) simp
    then have "(of_char (digit_char n) :: nat) = of_char (CHR ''0'')" by simp
    with True show ?thesis by (simp add: digit_char_def)
  next
    case False
    with "1.prems" have "hd (render_nat (n div 10)) = CHR ''0''"
      by (subst (asm) render_nat.simps) (simp add: render_nat_nonempty)
    with 1 False have "n div 10 = 0" by simp
    with False show ?thesis by simp
  qed
qed

lemma render_nat_leading_zero:
  "hd (render_nat n) = CHR ''0'' \<longrightarrow> length (render_nat n) = 1"
proof
  assume "hd (render_nat n) = CHR ''0''"
  then have "n = 0" by (rule render_nat_hd_zero)
  then show "length (render_nat n) = 1" by (simp add: render_nat.simps)
qed

lemma acc_val_snoc: "acc_val N (xs @ [c]) = acc_val N xs * 10 - digit_val c"
  by (induction xs arbitrary: N) simp_all

lemma acc_val_render_nat: "acc_val 0 (render_nat n) = - int n"
proof (induction n rule: render_nat.induct)
  case (1 n)
  show ?case
  proof (cases "n < 10")
    case True
    then show ?thesis by (subst render_nat.simps) (simp add: digit_val_digit_char)
  next
    case False
    with 1 have IH: "acc_val 0 (render_nat (n div 10)) = - int (n div 10)" by simp
    have "acc_val 0 (render_nat n) =
            acc_val 0 (render_nat (n div 10)) * 10 - int (n mod 10)"
      using False by (subst render_nat.simps) (simp add: acc_val_snoc digit_val_digit_char)
    also have "\<dots> = - int n"
      unfolding IH by presburger
    finally show ?thesis .
  qed
qed


lemma parse_val_num_int_value:
  assumes ds: "ds \<noteq> []" "\<forall>c\<in>set ds. is_digit c"
    and zero: "hd ds = CHR ''0'' \<longrightarrow> length ds = 1"
    and tok: "m_next ps = (if neg then CHR ''-'' # ds else ds)"
  shows "parse_val_num lib parent ps =
     (if int_limit (if neg then 8 else 7) \<le> acc_val 0 ds
      then Inr (Some (init_int (add_val parent ps)
                        (word_of_int (if neg then acc_val 0 ds else - acc_val 0 ds)),
                      ps\<lparr>m_next := []\<rparr>))
      else Inl (ErrSyntax msg_int_overflow (m_line_count ps)))"
proof -
  have rest: "\<not> is_digit (deref [])" "not_float_mark (deref [])"
    by (simp_all add: is_digit_def not_float_mark_def NUL_def)
  have tok': "m_next ps = (if neg then CHR ''-'' # ds else ds) @ []"
    using tok by simp
  have "int_loop (if neg then 8 else 7) (word_of_int 0) (ds @ []) =
          (if int_limit (if neg then 8 else 7) \<le> acc_val 0 ds
           then Some (word_of_int (acc_val 0 ds)) else None)"
    by (rule int_loop_acc_val [OF ds(2) rest(1)]) (auto simp: int_limit_def)
  then have loop: "int_loop (if neg then 8 else 7) 0 (ds @ []) =
          (if int_limit (if neg then 8 else 7) \<le> acc_val 0 ds
           then Some (word_of_int (acc_val 0 ds)) else None)"
    by simp
  show ?thesis
    unfolding parse_val_num_int [OF ds rest zero tok'] loop
    by simp
qed

lemma parse_int_document:
  assumes ds: "ds \<noteq> []" "\<forall>c\<in>set ds. is_digit c"
    and zero: "hd ds = CHR ''0'' \<longrightarrow> length ds = 1"
  shows "parse_in_place lib (if neg then CHR ''-'' # ds else ds) =
     (if int_limit (if neg then 8 else 7) \<le> acc_val 0 ds
      then Inr (ValImpl (DInt (word_of_int (if neg then acc_val 0 ds else - acc_val 0 ds)))
                  False 1 [] (- 1))
      else Inl (ErrSyntax msg_int_overflow 1))"
proof -
  let ?ps = "Parser_init (if neg then CHR ''-'' # ds else ds)"
  let ?v = "init_int (add_val None ?ps)
              (word_of_int (if neg then acc_val 0 ds else - acc_val 0 ds)) :: 'a ValImpl"
  let ?r = "(if int_limit (if neg then 8 else 7) \<le> acc_val 0 ds
            then Inr (Some (?v, ?ps\<lparr>m_next := []\<rparr>))
            else Inl (ErrSyntax msg_int_overflow (m_line_count ?ps)))
              :: 'a Err + ('a ValImpl \<times> Parser) option"
  obtain d ds' where "ds = d # ds'" using ds(1) by (cases ds) auto
  moreover from this ds(2) have "is_digit d" by simp
  ultimately have start: "number_start (deref (m_next ?ps))"
    by (simp add: Parser_init_def number_start_def)
  have num: "parse_val_num lib None ?ps = ?r"
    by (rule parse_val_num_int_value [OF ds zero]) (simp add: Parser_init_def)
  have pv: "parse_val lib (Suc (2 * length (m_next ?ps) + 1)) None ?ps =
          (case ?r of Inl e \<Rightarrow> Inl e | Inr x \<Rightarrow> Inr (the x))"
    by (rule parse_val_number [OF start num]) simp
  have ws: "skip_white_space (?ps\<lparr>m_next := []\<rparr>) = ?ps\<lparr>m_next := []\<rparr>"
    by (rule skip_white_space_end) simp
  show ?thesis
    unfolding parse_in_place_def parse_def
    using pv ws by (simp add: init_int_def add_val_def Parser_init_def)
qed

text \<open>
  The value of a digit string, and the bounds of \<open>int64_t\<close>: what the facts below compare
  the accumulation loop and its overflow test with.
\<close>

definition dec_val :: "string \<Rightarrow> int" where
  "dec_val ds = foldl (\<lambda>a c. 10 * a + (int (of_char c) - 48)) 0 ds"

definition i64_min :: int where "i64_min = - (2 ^ 63)"
definition i64_max :: int where "i64_max = 2 ^ 63 - 1"

lemma acc_val_foldl:
  "acc_val N ds = - foldl (\<lambda>a c. 10 * a + (int (of_char c) - 48)) (- N) ds"
proof (induction ds arbitrary: N)
  case Nil
  show ?case by simp
next
  case (Cons c cs)
  have "- (N * 10 - digit_val c) = 10 * (- N) + (int (of_char c) - 48)"
    by (simp add: digit_val_def)
  then have "acc_val (N * 10 - digit_val c) cs =
      - foldl (\<lambda>a c. 10 * a + (int (of_char c) - 48)) (10 * (- N) + (int (of_char c) - 48)) cs"
    by (simp only: Cons.IH)
  then show ?case by (simp only: acc_val.simps foldl_Cons)
qed

lemma acc_val_dec_val: "acc_val 0 ds = - dec_val ds"
  using acc_val_foldl [of 0 ds] by (simp add: dec_val_def)

lemma dec_val_nonneg: "\<forall>c\<in>set ds. is_digit c \<Longrightarrow> 0 \<le> dec_val ds"
  using acc_val_le [of ds 0] by (simp add: acc_val_dec_val)

lemma int_limit_range:
  assumes "\<forall>c\<in>set ds. is_digit c"
  shows "int_limit (if neg then 8 else 7) \<le> acc_val 0 ds \<longleftrightarrow>
           i64_min \<le> (if neg then - dec_val ds else dec_val ds) \<and>
           (if neg then - dec_val ds else dec_val ds) \<le> i64_max"
  using dec_val_nonneg [OF assms]
  by (auto simp: acc_val_dec_val int_limit_def i64_min_def i64_max_def)

lemma parse_val_num_int_range:
  assumes ds: "ds \<noteq> []" "\<forall>c\<in>set ds. is_digit c"
    and rest: "\<not> is_digit (deref rest)" "not_float_mark (deref rest)"
    and zero: "hd ds = CHR ''0'' \<longrightarrow> length ds = 1"
    and tok: "m_next ps = (if neg then CHR ''-'' # ds else ds) @ rest"
  shows "parse_val_num lib parent ps =
     (if i64_min \<le> (if neg then - dec_val ds else dec_val ds) \<and>
         (if neg then - dec_val ds else dec_val ds) \<le> i64_max
      then Inr (Some (init_int (add_val parent ps)
                        (word_of_int (if neg then - dec_val ds else dec_val ds)),
                      ps\<lparr>m_next := rest\<rparr>))
      else Inl (ErrSyntax msg_int_overflow (m_line_count ps)))"
proof -
  have "int_loop (if neg then 8 else 7) (word_of_int 0) (ds @ rest) =
          (if int_limit (if neg then 8 else 7) \<le> acc_val 0 ds
           then Some (word_of_int (acc_val 0 ds)) else None)"
    by (rule int_loop_acc_val [OF ds(2) rest(1)]) (auto simp: int_limit_def)
  then have loop: "int_loop (if neg then 8 else 7) 0 (ds @ rest) =
          (if int_limit (if neg then 8 else 7) \<le> acc_val 0 ds
           then Some (word_of_int (acc_val 0 ds)) else None)"
    by simp
  show ?thesis
    unfolding parse_val_num_int [OF ds rest zero tok] loop int_limit_range [OF ds(2)]
    by (simp add: acc_val_dec_val)
qed

lemma parse_render_i64:
  "parse_in_place lib (render_i64 n) = Inr (ValImpl (DInt n) False 1 [] (- 1))"
proof -
  let ?neg = "sint n < 0"
  let ?ds = "render_nat (nat \<bar>sint n\<bar>)"
  have range: "- 9223372036854775808 \<le> sint n" "sint n \<le> 9223372036854775807"
    using sint_ge [of n] sint_lt [of n] by simp_all
  have tok: "render_i64 n = (if ?neg then CHR ''-'' # ?ds else ?ds)"
    by (simp add: render_i64_def abs_if)
  have acc: "acc_val 0 ?ds = - \<bar>sint n\<bar>"
    by (simp add: acc_val_render_nat)
  have lim: "int_limit (if ?neg then 8 else 7) \<le> acc_val 0 ?ds"
    using range by (auto simp: acc int_limit_def)
  have val: "(word_of_int (if ?neg then acc_val 0 ?ds else - acc_val 0 ?ds) :: i64) = n"
    unfolding acc by (simp add: abs_if)
  show ?thesis
    unfolding tok parse_int_document [OF render_nat_nonempty render_nat_digits render_nat_leading_zero]
    using lim by (simp only: if_True val)
qed

lemma get_type_tag [simp]: "get_type v = tag (m_data v)"
  by (cases "m_data v"; cases "m_used v") (simp_all add: get_type_def m_type_def ValType_defs)

lemma m_type_used [simp]: "m_type v AND vtUsedBit = 0 \<longleftrightarrow> \<not> m_used v"
  by (cases "m_data v"; cases "m_used v") (simp_all add: m_type_def ValType_defs)

section \<open>The values of a tree and their flags\<close>

text \<open>
  \<open>subvals v\<close> lists \<open>v\<close> and the values below it, in the order of the traversal.
  \<open>members_accessed v\<close> says that in the subtree of \<open>v\<close> every direct child of every
  object has its flag set.
\<close>

function subvals :: "'f ValImpl \<Rightarrow> 'f ValImpl list"
  and subvals_list :: "'f ValImpl list \<Rightarrow> 'f ValImpl list"
where
  "subvals v = v # subvals_list (values_of (m_data v))"
| "subvals_list [] = []"
| "subvals_list (c # cs) = subvals c @ subvals_list cs"
  by pat_completeness auto
termination
  by (relation "measure (\<lambda>x. case x of
        Inl v \<Rightarrow> 2 * size v + 1
      | Inr vs \<Rightarrow> 2 * size_list size vs)")
     (auto simp: less_Suc_eq_le intro: less_imp_le [OF size_list_values_of])

declare subvals.simps [simp del]

definition members_accessed :: "'f ValImpl \<Rightarrow> bool" where
  "members_accessed v \<longleftrightarrow>
     (\<forall>obj \<in> set (subvals v). get_type obj = vtObj \<longrightarrow>
        (\<forall>c \<in> set (values_of (m_data obj)). m_used c))"

text \<open>
  \<open>flags_kept v w\<close>: \<open>w\<close> is the tree \<open>v\<close> with the same values, lines, names and
  indices, and every flag that is set in \<open>v\<close> is set in \<open>w\<close>.
\<close>

lemma size_values_of: "x \<in> set (values_of (m_data v)) \<Longrightarrow> size x < size v"
  using size_list_values_of [of v] size_list_estimation' [of x "values_of (m_data v)" "size x" size]
  by simp

function flags_kept :: "'f ValImpl \<Rightarrow> 'f ValImpl \<Rightarrow> bool" where
  "flags_kept v w \<longleftrightarrow>
     (m_used v \<longrightarrow> m_used w) \<and>
     m_line_no w = m_line_no v \<and> m_name w = m_name v \<and> m_idx w = m_idx v \<and>
     set_values_data (m_data w) [] = set_values_data (m_data v) [] \<and>
     list_all2 flags_kept (values_of (m_data v)) (values_of (m_data w))"
  by pat_completeness auto
termination
  by (relation "measure (\<lambda>(v, w). size v)") (auto simp: size_values_of)

declare flags_kept.simps [simp del]

text \<open>
  The calls that write to the tree, as data, and \<open>this\<close> after such a call. A value
  inside the tree is reached by the positions on the way to it (\<open>subtree\<close>); a call on
  it changes the tree at that place (\<open>replace_subtree\<close>, \<open>call_at\<close>).
\<close>

datatype 'f accessor =
    Arr_get_element_call int
  | Arr_get_bool_call int
  | Arr_get_i32_call int i32 i32
  | Arr_get_i64_call int i64 i64
  | Arr_get_f64_call int 'f 'f
  | Arr_get_str_call int
  | Arr_get_arr_call int
  | Arr_get_obj_call int
  | Obj_get_member_call string bool
  | Obj_get_bool_call string "bool option"
  | Obj_get_i32_call string i32 i32 "i32 option"
  | Obj_get_i64_call string i64 i64 "i64 option"
  | Obj_get_f64_call string 'f 'f "'f option"
  | Obj_get_str_call string "string option"
  | Obj_get_str_enum_idx_call string "string list" bool
  | Obj_get_arr_call string
  | Obj_get_obj_call string
  | ignore_members_call

fun after_call :: "'f platform \<Rightarrow> 'f accessor \<Rightarrow> 'f ValImpl \<Rightarrow> 'f ValImpl" where
  "after_call lib (Arr_get_element_call idx) this = snd (Arr_get_element this idx)"
| "after_call lib (Arr_get_bool_call idx) this = snd (Arr_get_bool this idx)"
| "after_call lib (Arr_get_i32_call idx lo hi) this = snd (Arr_get_i32 this idx lo hi)"
| "after_call lib (Arr_get_i64_call idx lo hi) this = snd (Arr_get_i64 this idx lo hi)"
| "after_call lib (Arr_get_f64_call idx lo hi) this = snd (Arr_get_f64 lib this idx lo hi)"
| "after_call lib (Arr_get_str_call idx) this = snd (Arr_get_str this idx)"
| "after_call lib (Arr_get_arr_call idx) this = snd (Arr_get_arr this idx)"
| "after_call lib (Arr_get_obj_call idx) this = snd (Arr_get_obj this idx)"
| "after_call lib (Obj_get_member_call name required) this =
     snd (Obj_get_member this name required)"
| "after_call lib (Obj_get_bool_call name def) this = snd (Obj_get_bool this name def)"
| "after_call lib (Obj_get_i32_call name lo hi def) this = snd (Obj_get_i32 this name lo hi def)"
| "after_call lib (Obj_get_i64_call name lo hi def) this = snd (Obj_get_i64 this name lo hi def)"
| "after_call lib (Obj_get_f64_call name lo hi def) this =
     snd (Obj_get_f64 lib this name lo hi def)"
| "after_call lib (Obj_get_str_call name def) this = snd (Obj_get_str this name def)"
| "after_call lib (Obj_get_str_enum_idx_call name str_set required) this =
     snd (Obj_get_str_enum_idx this name str_set required)"
| "after_call lib (Obj_get_arr_call name) this = snd (Obj_get_arr this name)"
| "after_call lib (Obj_get_obj_call name) this = snd (Obj_get_obj this name)"
| "after_call lib ignore_members_call this = ignore_members this"

primrec subtree :: "'f ValImpl \<Rightarrow> nat list \<Rightarrow> 'f ValImpl option" where
  "subtree v [] = Some v"
| "subtree v (i # p) =
     (if i < length (values_of (m_data v)) then subtree (values_of (m_data v) ! i) p
      else None)"

primrec replace_subtree :: "'f ValImpl \<Rightarrow> nat list \<Rightarrow> 'f ValImpl \<Rightarrow> 'f ValImpl" where
  "replace_subtree v [] w = w"
| "replace_subtree v (i # p) w =
     (if i < length (values_of (m_data v))
      then set_values v
             ((values_of (m_data v))[i := replace_subtree (values_of (m_data v) ! i) p w])
      else v)"

definition call_at :: "'f platform \<Rightarrow> 'f ValImpl \<Rightarrow> nat list \<times> 'f accessor \<Rightarrow> 'f ValImpl" where
  "call_at lib root pc =
     (case subtree root (fst pc) of
        None \<Rightarrow> root
      | Some this \<Rightarrow> replace_subtree root (fst pc) (after_call lib (snd pc) this))"

definition example_doc :: string where
  "example_doc =
     ''{'' @ [CHR 0x22] @ ''known'' @ [CHR 0x22] @ '': 1, '' @
     [CHR 0x22] @ ''extra'' @ [CHR 0x22] @ '': [{'' @ [CHR 0x22] @ ''a'' @ [CHR 0x22] @ '': 2}]}''"

definition example_root :: "int ValImpl" where
  "example_root =
     ValImpl
       (DObj
          [ValImpl (DInt 1) False 1 ''known'' 0,
           ValImpl
             (DArr [ValImpl (DObj [ValImpl (DInt 2) False 1 ''a'' 0] [(''a'', 0)]) False 1 [] 0])
             False 1 ''extra'' 1]
          [(''known'', 0), (''extra'', 1)])
       False 1 [] (- 1)"

lemma parse_example_doc: "parse_in_place example_platform example_doc = Inr example_root"
  by code_simp

section \<open>Facts about the accessors\<close>

lemma tag_cases:
  "tag d = vtNull \<or> tag d = vtBool \<or> tag d = vtInt \<or> tag d = vtF64 \<or> tag d = vtStr \<or> tag d = vtArr \<or> tag d = vtObj"
  by (cases d) simp_all

lemma sint_scast_32_64: "sint (scast (w :: i32) :: i64) = sint w"
  by (rule sint_up_scast) (simp add: is_up)

lemma Int_get_range_DInt:
  "Int_get_range (ValImpl (DInt n) u l nm i) lo hi =
     (if sint lo \<le> sint hi \<and> \<not> (sint lo \<le> sint n \<and> sint n \<le> sint hi)
      then Inl (ErrBadIntRange (ErrValue ''bad integer range'' l nm i vtInt) lo hi)
      else Inr n)"
  by (auto simp: Int_get_range_def Int_get_def mk_ErrBadIntRange_def mk_ErrValue_def
       get_line_def get_name_def get_idx_def Let_def word_sle_eq word_sless_alt)

lemma Int_get_i32_DInt:
  "Int_get_i32 (ValImpl (DInt n) u l nm i) lo hi =
     (if sint hi < sint lo
      then (if - 2147483648 \<le> sint n \<and> sint n \<le> 2147483647 then Inr (ucast n)
            else Inl (ErrBadIntRange (ErrValue ''bad integer range'' l nm i vtInt)
                        (- 2147483648) 2147483647))
      else (if sint lo \<le> sint n \<and> sint n \<le> sint hi then Inr (ucast n)
            else Inl (ErrBadIntRange (ErrValue ''bad integer range'' l nm i vtInt)
                        (scast lo) (scast hi))))"
proof (cases "sint hi < sint lo")
  case True
  have b: "sint (scast INT32_MIN :: i64) = - 2147483648" "sint (scast INT32_MAX :: i64) = 2147483647"
    "(scast INT32_MIN :: i64) = - 2147483648" "(scast INT32_MAX :: i64) = 2147483647"
    by (simp_all add: INT32_MIN_def INT32_MAX_def)
  from True show ?thesis
    by (simp add: Int_get_i32_def word_sless_alt Int_get_range_DInt b)
next
  case False
  then show ?thesis
    by (simp add: Int_get_i32_def word_sless_alt Int_get_range_DInt sint_scast_32_64)
qed

lemma set_subvals_list: "set (subvals_list vs) = (\<Union>c \<in> set vs. set (subvals c))"
  by (induction vs) simp_all

lemma set_subvals:
  "set (subvals v) = insert v (\<Union>c \<in> set (values_of (m_data v)). set (subvals c))"
  by (subst subvals.simps) (simp add: set_subvals_list)

lemma members_accessed_unfold:
  "members_accessed v \<longleftrightarrow>
     (get_type v = vtObj \<longrightarrow> (\<forall>c \<in> set (values_of (m_data v)). m_used c)) \<and>
     (\<forall>c \<in> set (values_of (m_data v)). members_accessed c)"
  unfolding members_accessed_def by (subst set_subvals) auto

lemma is_obj_iff: "tag d AND vtObj \<noteq> 0 \<longleftrightarrow> tag d = vtObj"
  by (cases d) (simp_all add: ValType_defs)

lemma not_container_values: "\<not> get_type v AND (vtArr OR vtObj) \<noteq> 0 \<Longrightarrow> values_of (m_data v) = []"
  by (cases "m_data v") (simp_all add: ValType_defs)

lemma reject_ok_iff:
  "(do_reject_unknow_members v = (Inr () :: 'f Err + unit)) \<longleftrightarrow> members_accessed (v :: 'f ValImpl)"
  "(reject_loop arr vs = (Inr () :: 'f Err + unit)) \<longleftrightarrow>
     (get_type (arr :: 'f ValImpl) = vtObj \<longrightarrow> (\<forall>c \<in> set vs. m_used c)) \<and>
     (\<forall>c \<in> set vs. members_accessed c)"
proof (induction v and arr vs rule: do_reject_unknow_members_reject_loop.induct)
  case (1 v)
  show ?case
  proof (cases "get_type v AND (vtArr OR vtObj) \<noteq> 0")
    case True
    with 1 show ?thesis
      by (subst do_reject_unknow_members.simps, subst members_accessed_unfold) simp
  next
    case False
    then have "values_of (m_data v) = []" by (rule not_container_values)
    with False show ?thesis
      by (subst do_reject_unknow_members.simps, subst members_accessed_unfold) simp
  qed
next
  case (2 arr)
  show ?case by simp
next
  case (3 arr v vs)
  show ?case
  proof (cases "0 = (m_type v AND vtUsedBit) \<and> get_type arr AND vtObj \<noteq> 0")
    case True
    then have "\<not> m_used v" "get_type arr = vtObj"
      by (simp_all add: is_obj_iff eq_commute [of 0])
    with True show ?thesis by auto
  next
    case False
    then have u: "get_type arr = vtObj \<longrightarrow> m_used v"
      by (auto simp: is_obj_iff eq_commute [of 0])
    show ?thesis
    proof (cases "do_reject_unknow_members v")
      case (Inl e)
      with 3(1) [OF False] have "\<not> members_accessed v" by auto
      with False Inl show ?thesis by auto
    next
      case (Inr x)
      with 3(1) [OF False] have "members_accessed v" by auto
      with False Inr u 3(2) [OF False Inr] show ?thesis by auto
    qed
  qed
qed

lemma reject_error:
  "do_reject_unknow_members v = (Inl e :: 'f Err + unit) \<Longrightarrow>
     \<exists>obj c. obj \<in> set (subvals (v :: 'f ValImpl)) \<and> get_type obj = vtObj \<and>
       c \<in> set (values_of (m_data obj)) \<and> \<not> m_used c \<and> e = mk_ErrUnknownMember c"
  "reject_loop arr vs = (Inl e :: 'f Err + unit) \<Longrightarrow>
     (get_type (arr :: 'f ValImpl) = vtObj \<and> (\<exists>c \<in> set vs. \<not> m_used c \<and> e = mk_ErrUnknownMember c)) \<or>
     (\<exists>w \<in> set vs. \<exists>obj c. obj \<in> set (subvals w) \<and> get_type obj = vtObj \<and>
       c \<in> set (values_of (m_data obj)) \<and> \<not> m_used c \<and> e = mk_ErrUnknownMember c)"
proof (induction v and arr vs arbitrary: e and e rule: do_reject_unknow_members_reject_loop.induct)
  case (1 v)
  from "1.prems" have c: "get_type v AND (vtArr OR vtObj) \<noteq> 0"
    and l: "reject_loop v (values_of (m_data v)) = Inl e"
    by (subst (asm) do_reject_unknow_members.simps, simp split: if_splits)+
  from "1.IH" [OF c l] show ?case
    by (subst set_subvals) blast
next
  case (2 arr)
  then show ?case by simp
next
  case (3 arr v vs)
  show ?case
  proof (cases "0 = (m_type v AND vtUsedBit) \<and> get_type arr AND vtObj \<noteq> 0")
    case True
    then have "\<not> m_used v" "get_type arr = vtObj"
      by (simp_all add: is_obj_iff eq_commute [of 0])
    with True "3.prems" show ?thesis by auto
  next
    case False
    then have step: "reject_loop arr (v # vs) =
        (case do_reject_unknow_members v of Inl x \<Rightarrow> Inl x | Inr x \<Rightarrow> reject_loop arr vs)"
      by (cases "m_used v") auto
    show ?thesis
    proof (cases "do_reject_unknow_members v")
      case (Inl e')
      with step "3.prems" have "e' = e" by simp
      with "3.IH"(1) [OF False] Inl show ?thesis by auto
    next
      case (Inr x)
      with step "3.prems" have "reject_loop arr vs = Inl e" by simp
      from "3.IH"(2) [OF False Inr this] show ?thesis by auto
    qed
  qed
qed

lemma values_of_set_values:
  "values_of (m_data (set_values v xs)) = (if values_of (m_data v) = [] \<and> tag (m_data v) AND (vtArr OR vtObj) = 0 then [] else xs)"
  by (cases "m_data v") (simp_all add: set_values_def ValType_defs)

lemma container_values:
  "tag (m_data v) AND (vtArr OR vtObj) \<noteq> 0 \<Longrightarrow> values_of (m_data (set_values v xs)) = xs"
  by (cases "m_data v") (simp_all add: set_values_def ValType_defs)

lemma set_values_fields [simp]:
  "m_used (set_values v xs) = m_used v" "m_line_no (set_values v xs) = m_line_no v"
  "m_name (set_values v xs) = m_name v" "m_idx (set_values v xs) = m_idx v"
  "tag (m_data (set_values v xs)) = tag (m_data v)"
  "set_values_data (m_data (set_values v xs)) [] = set_values_data (m_data v) []"
  by (cases "m_data v"; simp add: set_values_def)+

lemma set_values_not_container:
  "\<not> tag (m_data v) AND (vtArr OR vtObj) \<noteq> 0 \<Longrightarrow> set_values v xs = v"
  by (cases v; cases "m_data v") (simp_all add: set_values_def ValType_defs)

lemma mark_as_used_fields [simp]:
  "m_used (mark_as_used v)" "m_line_no (mark_as_used v) = m_line_no v"
  "m_name (mark_as_used v) = m_name v" "m_idx (mark_as_used v) = m_idx v"
  "m_data (mark_as_used v) = m_data v"
  by (simp_all add: mark_as_used_def)

lemma flags_kept_refl: "flags_kept v v"
proof (induction "size v" arbitrary: v rule: less_induct)
  case less
  then have "\<forall>x \<in> set (values_of (m_data v)). flags_kept x x"
    by (auto dest: size_values_of)
  then show ?case
    by (subst flags_kept.simps) (simp add: list_all2_same)
qed

lemma flags_kept_trans: "flags_kept u v \<Longrightarrow> flags_kept v w \<Longrightarrow> flags_kept u w"
proof (induction "size u" arbitrary: u v w rule: less_induct)
  case less
  let ?U = "values_of (m_data u)" and ?V = "values_of (m_data v)" and ?W = "values_of (m_data w)"
  note uv = iffD1 [OF flags_kept.simps less.prems(1)]
  note vw = iffD1 [OF flags_kept.simps less.prems(2)]
  from uv have luv: "list_all2 flags_kept ?U ?V" by blast
  from vw have lvw: "list_all2 flags_kept ?V ?W" by blast
  have "list_all2 flags_kept ?U ?W"
    unfolding list_all2_conv_all_nth
  proof (intro conjI allI impI)
    show "length ?U = length ?W"
      using luv lvw by (simp add: list_all2_lengthD)
  next
    fix i
    assume i: "i < length ?U"
    then have "?U ! i \<in> set ?U" by simp
    then have sz: "size (?U ! i) < size u" by (rule size_values_of)
    have a: "flags_kept (?U ! i) (?V ! i)"
      using luv i by (rule list_all2_nthD)
    have "i < length ?V"
      using i luv by (simp add: list_all2_lengthD)
    with lvw have b: "flags_kept (?V ! i) (?W ! i)"
      by (rule list_all2_nthD)
    from sz a b show "flags_kept (?U ! i) (?W ! i)"
      by (rule less.hyps)
  qed
  moreover from uv vw have
    "(m_used u \<longrightarrow> m_used w) \<and> m_line_no w = m_line_no u \<and> m_name w = m_name u \<and>
     m_idx w = m_idx u \<and> set_values_data (m_data w) [] = set_values_data (m_data u) []"
    by simp
  ultimately show ?case by (subst flags_kept.simps) simp
qed

lemma flags_kept_mark: "flags_kept v (mark_as_used v)"
  by (subst flags_kept.simps) (simp add: list_all2_same flags_kept_refl)

lemma flags_kept_set_values:
  assumes "list_all2 flags_kept (values_of (m_data v)) xs"
  shows "flags_kept v (set_values v xs)"
proof (cases "tag (m_data v) AND (vtArr OR vtObj) \<noteq> 0")
  case True
  with assms show ?thesis
    by (subst flags_kept.simps) (simp add: container_values)
next
  case False
  then show ?thesis by (simp add: set_values_not_container flags_kept_refl)
qed

lemma list_all2_flags_kept_update:
  assumes "i < length xs" "flags_kept (xs ! i) y"
  shows "list_all2 flags_kept xs (xs[i := y])"
proof -
  have "list_all2 flags_kept (xs[i := xs ! i]) (xs[i := y])"
    by (rule list_all2_update_cong) (simp_all add: list_all2_same flags_kept_refl assms)
  then show ?thesis by simp
qed

lemma flags_kept_Arr_get_element: "flags_kept this (snd (Arr_get_element this idx))"
proof (cases "0 \<le> idx \<and> idx < ArrImpl_get_len this")
  case False
  then show ?thesis
    by (auto simp: Arr_get_element_def ArrImpl_get_element_def flags_kept_refl)
next
  case True
  then have i: "nat idx < length (values_of (m_data this))"
    by (simp add: ArrImpl_get_len_def nat_less_iff)
  have "flags_kept this (set_values this
          ((values_of (m_data this))[nat idx := mark_as_used (values_of (m_data this) ! nat idx)]))"
    by (intro flags_kept_set_values list_all2_flags_kept_update i flags_kept_mark)
  with True show ?thesis
    by (simp add: Arr_get_element_def ArrImpl_get_element_def Let_def)
qed

lemma flags_kept_ignore:
  fixes v :: "'f ValImpl" and vs :: "'f ValImpl list"
  shows "flags_kept v (do_ignore_members v)"
    and "list_all2 flags_kept vs (ignore_loop vs)"
proof (induction v and vs rule: do_ignore_members_ignore_loop.induct)
  case (1 v)
  show ?case
  proof (cases "get_type v AND (vtArr OR vtObj) \<noteq> 0")
    case True
    with 1 show ?thesis
      by (subst do_ignore_members.simps) (simp add: flags_kept_set_values)
  next
    case False
    then show ?thesis
      by (subst do_ignore_members.simps) (simp add: flags_kept_refl)
  qed
next
  case 2
  show ?case by simp
next
  case (3 v vs)
  have "flags_kept v (do_ignore_members (mark_as_used v))"
    by (rule flags_kept_trans [OF flags_kept_mark "3.IH"(1)])
  with "3.IH"(2) show ?case by simp
qed

lemma ignore_marks:
  fixes v :: "'f ValImpl" and vs :: "'f ValImpl list"
  shows "members_accessed (do_ignore_members v) \<and> m_used (do_ignore_members v) = m_used v"
    and "\<forall>c \<in> set (ignore_loop vs). m_used c \<and> members_accessed c"
proof (induction v and vs rule: do_ignore_members_ignore_loop.induct)
  case (1 v)
  show ?case
  proof (cases "get_type v AND (vtArr OR vtObj) \<noteq> 0")
    case True
    then have eq: "do_ignore_members v = set_values v (ignore_loop (values_of (m_data v)))"
      by (subst do_ignore_members.simps) simp
    from True have "values_of (m_data (do_ignore_members v)) = ignore_loop (values_of (m_data v))"
      unfolding eq by (simp add: container_values)
    with "1.IH" [OF True] have "members_accessed (do_ignore_members v)"
      by (subst members_accessed_unfold) simp
    then show ?thesis by (simp add: eq)
  next
    case False
    then have eq: "do_ignore_members v = v"
      by (subst do_ignore_members.simps) simp
    from False have "values_of (m_data v) = []" by (rule not_container_values)
    then have "members_accessed v"
      by (subst members_accessed_unfold) simp
    then show ?thesis by (simp add: eq)
  qed
next
  case 2
  show ?case by simp
next
  case (3 v vs)
  then show ?case by simp
qed


lemma snd_Arr_getters:
  "snd (Arr_get_bool this idx) = snd (Arr_get_element this idx)"
  "snd (Arr_get_i32 this idx lo_w hi_w) = snd (Arr_get_element this idx)"
  "snd (Arr_get_i64 this idx lo hi) = snd (Arr_get_element this idx)"
  "snd (Arr_get_f64 lib this idx flo fhi) = snd (Arr_get_element this idx)"
  "snd (Arr_get_str this idx) = snd (Arr_get_element this idx)"
  "snd (Arr_get_arr this idx) = snd (Arr_get_element this idx)"
  "snd (Arr_get_obj this idx) = snd (Arr_get_element this idx)"
  by (simp_all add: Arr_get_bool_def Arr_get_i32_def Arr_get_i64_def Arr_get_f64_def
      Arr_get_str_def Arr_get_arr_def Arr_get_obj_def split: prod.splits)

lemma snd_Obj_get_member:
  "snd (Obj_get_member this name required) =
     (if ObjImpl_find this name \<ge> 0 then snd (Arr_get_element this (ObjImpl_find this name))
      else this)"
  by (simp add: Obj_get_member_def Obj_get_member_idx_def Let_def split: prod.splits)

lemma snd_Obj_getters:
  "snd (Obj_get_bool this name bdef) = snd (Obj_get_member this name (bdef = None))"
  "snd (Obj_get_i32 this name lo_w hi_w def_w) = snd (Obj_get_member this name (def_w = None))"
  "snd (Obj_get_i64 this name lo hi def_l) = snd (Obj_get_member this name (def_l = None))"
  "snd (Obj_get_f64 lib this name flo fhi fdef) = snd (Obj_get_member this name (fdef = None))"
  "snd (Obj_get_str this name sdef) = snd (Obj_get_member this name (sdef = None))"
  "snd (Obj_get_str_enum_idx this name str_set required) = snd (Obj_get_member this name required)"
  "snd (Obj_get_arr this name) = snd (Obj_get_member this name True)"
  "snd (Obj_get_obj this name) = snd (Obj_get_member this name True)"
  by (simp_all add: Obj_get_bool_def Obj_get_i32_def Obj_get_i64_def Obj_get_f64_def
      Obj_get_str_def Obj_get_str_enum_idx_def Obj_get_arr_def Obj_get_obj_def split: prod.splits)

lemma flags_kept_Obj_get_member: "flags_kept this (snd (Obj_get_member this name required))"
  by (simp add: snd_Obj_get_member flags_kept_refl flags_kept_Arr_get_element)

lemma flags_kept_after_call: "flags_kept this (after_call lib c this)"
  by (cases c)
    (simp_all add: snd_Arr_getters snd_Obj_getters flags_kept_Arr_get_element
       flags_kept_Obj_get_member ignore_members_def flags_kept_ignore)

lemma flags_kept_replace_subtree:
  "subtree root path = Some this \<Longrightarrow> flags_kept this this1 \<Longrightarrow>
     flags_kept root (replace_subtree root path this1)"
proof (induction path arbitrary: root)
  case Nil
  then show ?case by simp
next
  case (Cons i p)
  from Cons.prems(1) have i: "i < length (values_of (m_data root))"
    and s: "subtree (values_of (m_data root) ! i) p = Some this"
    by (simp_all split: if_splits)
  have "flags_kept (values_of (m_data root) ! i)
          (replace_subtree (values_of (m_data root) ! i) p this1)"
    using s Cons.prems(2) by (rule Cons.IH)
  with i show ?case
    by (simp add: flags_kept_set_values list_all2_flags_kept_update)
qed

lemma values_nonempty_container:
  "values_of (m_data v) \<noteq> [] \<Longrightarrow> tag (m_data v) AND (vtArr OR vtObj) \<noteq> 0"
  by (cases "m_data v") (simp_all add: ValType_defs)

lemma Arr_get_element_marks:
  assumes "Arr_get_element this idx = (Inr v, this1)"
  shows "m_used v \<and> ArrImpl_get_element this1 idx = Inr v \<and> 0 \<le> idx \<and> idx < ArrImpl_get_len this"
proof -
  let ?vs = "values_of (m_data this)"
  from assms have r: "0 \<le> idx \<and> idx < ArrImpl_get_len this"
    by (auto simp: Arr_get_element_def ArrImpl_get_element_def split: if_splits)
  then have i: "nat idx < length ?vs" by (simp add: ArrImpl_get_len_def nat_less_iff)
  then have "?vs \<noteq> []" by auto
  then have c: "tag (m_data this) AND (vtArr OR vtObj) \<noteq> 0" by (rule values_nonempty_container)
  from assms r have v: "v = mark_as_used (?vs ! nat idx)"
    and t: "this1 = set_values this (?vs[nat idx := v])"
    by (auto simp: Arr_get_element_def ArrImpl_get_element_def Let_def)
  from c have "values_of (m_data this1) = ?vs[nat idx := v]"
    unfolding t by (rule container_values)
  with i r have "ArrImpl_get_element this1 idx = Inr v"
    by (simp add: ArrImpl_get_element_def ArrImpl_get_len_def)
  with v r show ?thesis by simp
qed

lemma Arr_get_element_in_range:
  assumes "0 \<le> idx" "idx < ArrImpl_get_len this"
  shows "\<exists>v. Arr_get_element this idx = (Inr v, snd (Arr_get_element this idx)) \<and> m_used v \<and>
           ArrImpl_get_element (snd (Arr_get_element this idx)) idx = Inr v"
proof -
  from assms obtain v this1 where e: "Arr_get_element this idx = (Inr v, this1)"
    by (auto simp: Arr_get_element_def ArrImpl_get_element_def Let_def)
  from Arr_get_element_marks [OF e] e show ?thesis by simp
qed

lemma flags_kept_call_at: "flags_kept root (call_at lib root pc)"
  by (auto simp: call_at_def flags_kept_refl flags_kept_replace_subtree flags_kept_after_call
      split: option.splits)

lemma flags_kept_calls: "flags_kept root (foldl (call_at lib) root calls)"
proof (induction calls rule: rev_induct)
  case Nil
  show ?case by (simp add: flags_kept_refl)
next
  case (snoc pc calls)
  have "flags_kept (foldl (call_at lib) root calls)
          (call_at lib (foldl (call_at lib) root calls) pc)"
    by (rule flags_kept_call_at)
  with snoc show ?case by (auto intro: flags_kept_trans)
qed

lemma flags_kept_subtree:
  "flags_kept r r1 \<Longrightarrow> subtree r p = Some v \<Longrightarrow> \<exists>v1. subtree r1 p = Some v1 \<and> flags_kept v v1"
proof (induction p arbitrary: r r1)
  case Nil
  then show ?case by simp
next
  case (Cons i p)
  note k = iffD1 [OF flags_kept.simps Cons.prems(1)]
  then have l: "list_all2 flags_kept (values_of (m_data r)) (values_of (m_data r1))" by blast
  from Cons.prems(2) have i: "i < length (values_of (m_data r))"
    and s: "subtree (values_of (m_data r) ! i) p = Some v"
    by (simp_all split: if_splits)
  from l i have "flags_kept (values_of (m_data r) ! i) (values_of (m_data r1) ! i)"
    by (rule list_all2_nthD)
  from Cons.IH [OF this s] obtain v1 where
    "subtree (values_of (m_data r1) ! i) p = Some v1" "flags_kept v v1" by blast
  moreover from l i have "i < length (values_of (m_data r1))"
    by (simp add: list_all2_lengthD)
  ultimately show ?case by simp
qed

lemma flags_kept_used: "flags_kept v w \<Longrightarrow> m_used v \<Longrightarrow> m_used w"
  by (subst (asm) flags_kept.simps) simp

lemma as_arr_Inr: "as_arr x = Inr v \<Longrightarrow> v = x"
  by (simp add: as_arr_def val_cast_def split: if_splits)

lemma as_obj_Inr: "as_obj x = Inr v \<Longrightarrow> v = x"
  by (simp add: as_obj_def val_cast_def split: if_splits)

lemma Arr_get_arr_marks:
  assumes "Arr_get_arr this idx = (Inr v, this1)"
  shows "m_used v \<and> ArrImpl_get_element this1 idx = Inr v"
proof -
  from assms obtain r where e: "Arr_get_element this idx = (r, this1)" and c: "and_then r as_arr = Inr v"
    by (auto simp: Arr_get_arr_def split: prod.splits)
  from c obtain x where "r = Inr x" "as_arr x = Inr v"
    by (cases r) (simp_all add: and_then_def)
  with e as_arr_Inr have "Arr_get_element this idx = (Inr v, this1)" by auto
  from Arr_get_element_marks [OF this] show ?thesis by simp
qed

lemma Arr_get_obj_marks:
  assumes "Arr_get_obj this idx = (Inr v, this1)"
  shows "m_used v \<and> ArrImpl_get_element this1 idx = Inr v"
proof -
  from assms obtain r where e: "Arr_get_element this idx = (r, this1)" and c: "and_then r as_obj = Inr v"
    by (auto simp: Arr_get_obj_def split: prod.splits)
  from c obtain x where "r = Inr x" "as_obj x = Inr v"
    by (cases r) (simp_all add: and_then_def)
  with e as_obj_Inr have "Arr_get_element this idx = (Inr v, this1)" by auto
  from Arr_get_element_marks [OF this] show ?thesis by simp
qed

lemma Obj_get_member_marks:
  assumes "Obj_get_member this name required = (Inr (Some v), this1)"
  shows "m_used v \<and> ArrImpl_get_element this1 (ObjImpl_find this name) = Inr v"
proof -
  let ?idx = "ObjImpl_find this name"
  from assms obtain r where e: "Arr_get_element this ?idx = (r, this1)"
    and c: "and_then r (\<lambda>v. Inr (Some v)) = (Inr (Some v) :: 'a Err + 'a ValImpl option)"
    by (auto simp: Obj_get_member_def Obj_get_member_idx_def Let_def split: prod.splits if_splits)
  from c have "r = Inr v"
    by (cases r) (simp_all add: and_then_def)
  with e have "Arr_get_element this ?idx = (Inr v, this1)" by simp
  from Arr_get_element_marks [OF this] show ?thesis by simp
qed

lemma Obj_get_arr_marks:
  assumes "Obj_get_arr this name = (Inr v, this1)"
  shows "m_used v \<and> ArrImpl_get_element this1 (ObjImpl_find this name) = Inr v"
proof -
  from assms obtain r where e: "Obj_get_member this name True = (r, this1)"
    and c: "and_then r (\<lambda>v. as_arr (the v)) = Inr v"
    by (auto simp: Obj_get_arr_def split: prod.splits)
  from c obtain x where r: "r = Inr x" and a: "as_arr (the x) = Inr v"
    by (cases r) (simp_all add: and_then_def)
  from e r have "x \<noteq> None"
    by (auto simp: Obj_get_member_def Obj_get_member_idx_def Let_def and_then_def
        split: prod.splits if_splits sum.splits)
  with as_arr_Inr [OF a] have "x = Some v" by auto
  with e r have "Obj_get_member this name True = (Inr (Some v), this1)" by simp
  then show ?thesis by (rule Obj_get_member_marks)
qed

lemma Obj_get_obj_marks:
  assumes "Obj_get_obj this name = (Inr v, this1)"
  shows "m_used v \<and> ArrImpl_get_element this1 (ObjImpl_find this name) = Inr v"
proof -
  from assms obtain r where e: "Obj_get_member this name True = (r, this1)"
    and c: "and_then r (\<lambda>v. as_obj (the v)) = Inr v"
    by (auto simp: Obj_get_obj_def split: prod.splits)
  from c obtain x where r: "r = Inr x" and a: "as_obj (the x) = Inr v"
    by (cases r) (simp_all add: and_then_def)
  from e r have "x \<noteq> None"
    by (auto simp: Obj_get_member_def Obj_get_member_idx_def Let_def and_then_def
        split: prod.splits if_splits sum.splits)
  with as_obj_Inr [OF a] have "x = Some v" by auto
  with e r have "Obj_get_member this name True = (Inr (Some v), this1)" by simp
  then show ?thesis by (rule Obj_get_member_marks)
qed

lemma Arr_get_element_flag:
  assumes "0 \<le> idx" "idx < ArrImpl_get_len this"
  shows "m_used (values_of (m_data (snd (Arr_get_element this idx))) ! nat idx)"
proof -
  from Arr_get_element_in_range [OF assms] obtain v where
    v: "m_used v" "ArrImpl_get_element (snd (Arr_get_element this idx)) idx = Inr v"
    by blast
  from v(2) have "values_of (m_data (snd (Arr_get_element this idx))) ! nat idx = v"
    by (simp add: ArrImpl_get_element_def split: if_splits)
  with v(1) show ?thesis by simp
qed

section \<open>Number tokens\<close>

text \<open>
  Where the fraction and the exponent of a number token end, from the end of its integer
  part, as \<open>parse_val_num\<close> finds it, and \<open>has_float_mark\<close>: a text contains \<open>.\<close>, \<open>e\<close> or
  \<open>E\<close>.

  A number token, as the grammar has it, is a sign \<open>sg\<close> (empty or \<open>-\<close>), an integer part \<open>ds\<close>
  (digits, no zero before another digit), a fraction \<open>fr\<close> (empty, or \<open>.\<close> and digits) and an
  exponent \<open>ex\<close> (empty, or \<open>e\<close> or \<open>E\<close>, an optional sign and digits); the program leaves it
  to \<open>strtod\<close> to refuse a fraction or an exponent without digits. \<open>token_end\<close> says that
  the text behind the token does not go on with it.
\<close>

definition fraction_end :: "string \<Rightarrow> string" where
  "fraction_end p = (if deref p = CHR ''.'' then skip_digits (tl p) else p)"

definition exponent_end :: "string \<Rightarrow> string" where
  "exponent_end p1 =
     (if deref p1 = CHR ''E'' \<or> deref p1 = CHR ''e''
      then skip_digits (if deref (tl p1) = CHR ''+'' \<or> deref (tl p1) = CHR ''-''
                        then tl (tl p1) else tl p1)
      else p1)"

definition has_float_mark :: "string \<Rightarrow> bool" where
  "has_float_mark tok \<longleftrightarrow> CHR ''.'' \<in> set tok \<or> CHR ''e'' \<in> set tok \<or> CHR ''E'' \<in> set tok"

definition sign_part :: "string \<Rightarrow> bool" where
  "sign_part sg \<longleftrightarrow> sg = [] \<or> sg = ''-''"

definition int_part :: "string \<Rightarrow> bool" where
  "int_part ds \<longleftrightarrow> ds \<noteq> [] \<and> list_all is_digit ds \<and> (hd ds = CHR ''0'' \<longrightarrow> length ds = 1)"

definition frac_part :: "string \<Rightarrow> bool" where
  "frac_part fr \<longleftrightarrow> fr = [] \<or> hd fr = CHR ''.'' \<and> list_all is_digit (tl fr)"

definition exp_part :: "string \<Rightarrow> bool" where
  "exp_part ex \<longleftrightarrow>
     ex = [] \<or>
     (hd ex = CHR ''e'' \<or> hd ex = CHR ''E'') \<and>
     list_all is_digit
       (if deref (tl ex) = CHR ''+'' \<or> deref (tl ex) = CHR ''-'' then tl (tl ex) else tl ex)"

definition token_end :: "string \<Rightarrow> string \<Rightarrow> string \<Rightarrow> bool" where
  "token_end fr ex rest \<longleftrightarrow>
     \<not> is_digit (deref rest) \<and>
     (fr = [] \<and> ex = [] \<longrightarrow> deref rest \<noteq> CHR ''.'') \<and>
     (ex = [] \<longrightarrow> deref rest \<noteq> CHR ''e'' \<and> deref rest \<noteq> CHR ''E'') \<and>
     (length ex = 1 \<longrightarrow> deref rest \<noteq> CHR ''+'' \<and> deref rest \<noteq> CHR ''-'')"

lemma skip_digits_split: "\<exists>ds. s = ds @ skip_digits s \<and> (\<forall>c\<in>set ds. is_digit c)"
proof (induction s)
  case Nil
  show ?case by simp
next
  case (Cons c s)
  show ?case
  proof (cases "is_digit c")
    case True
    from Cons obtain ds where "s = ds @ skip_digits s" "\<forall>c\<in>set ds. is_digit c" by blast
    with True have "c # s = (c # ds) @ skip_digits (c # s) \<and> (\<forall>x\<in>set (c # ds). is_digit x)"
      by simp
    then show ?thesis by blast
  next
    case False
    then have "c # s = [] @ skip_digits (c # s) \<and> (\<forall>x\<in>set []. is_digit x)" by simp
    then show ?thesis by blast
  qed
qed

lemma deref_Cons: "deref s = c \<Longrightarrow> c \<noteq> NUL \<Longrightarrow> s = c # tl s"
  by (cases s) auto

lemma digit_no_mark: "is_digit c \<Longrightarrow> c \<noteq> CHR ''.'' \<and> c \<noteq> CHR ''e'' \<and> c \<noteq> CHR ''E''"
  by (auto simp: is_digit_def)

lemma digits_no_mark: "\<forall>c\<in>set ds. is_digit c \<Longrightarrow> \<not> has_float_mark ds"
  by (auto simp: has_float_mark_def dest: digit_no_mark)

lemma has_float_mark_append [simp]:
  "has_float_mark (xs @ ys) \<longleftrightarrow> has_float_mark xs \<or> has_float_mark ys"
  by (auto simp: has_float_mark_def)

lemma lex_tail:
  "(let (is_float1, p1) =
          (if deref p = CHR ''.'' then (True, skip_digits (tl p)) else (False, p));
        (is_float, p2) =
          (if deref p1 = CHR ''E'' \<or> deref p1 = CHR ''e''
           then let q = tl p1;
                    q1 = (if deref q = CHR ''+'' \<or> deref q = CHR ''-'' then tl q else q)
                in (True, skip_digits q1)
           else (is_float1, p1))
    in F is_float p2) =
   F (deref p = CHR ''.'' \<or> deref (fraction_end p) = CHR ''E'' \<or>
      deref (fraction_end p) = CHR ''e'')
     (exponent_end (fraction_end p))"
  by (simp add: fraction_end_def exponent_end_def Let_def)

lemma deref_append: "xs \<noteq> [] \<Longrightarrow> deref (xs @ ys) = hd xs"
  by (cases xs) simp_all

lemma is_digit_neq:
  assumes "is_digit c"
  shows "c \<noteq> CHR ''-''" "c \<noteq> CHR ''+''" "c \<noteq> CHR ''.''" "c \<noteq> CHR ''e''" "c \<noteq> CHR ''E''"
  using assms by (auto simp: is_digit_def)

lemma not_digit_marks:
  "\<not> is_digit (CHR ''.'')" "\<not> is_digit (CHR ''e'')" "\<not> is_digit (CHR ''E'')"
  "\<not> is_digit (CHR ''+'')" "\<not> is_digit (CHR ''-'')"
  by (simp_all add: is_digit_def)

lemma exponent_end_token:
  assumes ex: "exp_part ex" and te: "token_end fr ex rest"
  shows "exponent_end (ex @ rest) = rest \<and>
        ((deref (ex @ rest) = CHR ''E'' \<or> deref (ex @ rest) = CHR ''e'') \<longleftrightarrow> ex \<noteq> []) \<and>
        \<not> is_digit (deref (ex @ rest)) \<and> (ex \<noteq> [] \<longrightarrow> deref (ex @ rest) \<noteq> CHR ''.'')"
proof (cases "ex = []")
  case True
  with te show ?thesis
    by (simp add: token_end_def exponent_end_def)
next
  case False
  from te have nd: "\<not> is_digit (deref rest)" by (simp add: token_end_def)
  from False obtain m body where e: "ex = m # body" by (cases ex) auto
  from ex e have m: "m = CHR ''e'' \<or> m = CHR ''E''"
    and body: "\<forall>c\<in>set (if deref body = CHR ''+'' \<or> deref body = CHR ''-''
                         then tl body else body). is_digit c"
    by (auto simp: exp_part_def list_all_iff)
  have q: "skip_digits (if deref (body @ rest) = CHR ''+'' \<or> deref (body @ rest) = CHR ''-''
                        then tl (body @ rest) else body @ rest) = rest"
  proof (cases body)
    case Nil
    with te e have "deref rest \<noteq> CHR ''+''" "deref rest \<noteq> CHR ''-''"
      by (simp_all add: token_end_def)
    with Nil nd show ?thesis by (simp add: skip_digits_stop)
  next
    case (Cons b bs)
    show ?thesis
    proof (cases "b = CHR ''+'' \<or> b = CHR ''-''")
      case True
      with body Cons have "\<forall>c\<in>set bs. is_digit c" by simp
      from skip_digits_append [OF this nd] True Cons show ?thesis by simp
    next
      case False
      with body Cons have "\<forall>c\<in>set (b # bs). is_digit c" by simp
      from skip_digits_append [OF this nd] False Cons show ?thesis by simp
    qed
  qed
  from m e q show ?thesis
    by (auto simp: exponent_end_def not_digit_marks)
qed

lemma fraction_end_token:
  assumes fr: "frac_part fr" and ex: "exp_part ex" and te: "token_end fr ex rest"
  shows "fraction_end (fr @ ex @ rest) = ex @ rest \<and>
        (deref (fr @ ex @ rest) = CHR ''.'' \<longleftrightarrow> fr \<noteq> []) \<and>
        \<not> is_digit (deref (fr @ ex @ rest))"
proof (cases "fr = []")
  case True
  note e = exponent_end_token [OF ex te]
  have "deref (ex @ rest) \<noteq> CHR ''.''"
  proof (cases "ex = []")
    case True
    with \<open>fr = []\<close> te show ?thesis by (simp add: token_end_def)
  next
    case False
    with e show ?thesis by simp
  qed
  with True e show ?thesis
    by (simp add: fraction_end_def)
next
  case False
  note e = exponent_end_token [OF ex te]
  from False obtain fs where f: "fr = CHR ''.'' # fs" and fs: "\<forall>c\<in>set fs. is_digit c"
    using fr by (cases fr) (auto simp: frac_part_def list_all_iff)
  from e have "\<not> is_digit (deref (ex @ rest))" by simp
  from skip_digits_append [OF fs this] f show ?thesis
    by (simp add: fraction_end_def not_digit_marks)
qed

lemma has_float_mark_token:
  assumes "sign_part sg" "int_part ds" "frac_part fr" "exp_part ex"
  shows "has_float_mark (sg @ ds @ fr @ ex) \<longleftrightarrow> fr \<noteq> [] \<or> ex \<noteq> []"
proof -
  from assms(1) have s: "\<not> has_float_mark sg"
    by (auto simp: sign_part_def has_float_mark_def)
  from assms(2) have d: "\<not> has_float_mark ds"
    by (intro digits_no_mark) (simp add: int_part_def list_all_iff)
  have f: "has_float_mark fr \<longleftrightarrow> fr \<noteq> []"
    using assms(3) by (cases fr) (auto simp: frac_part_def has_float_mark_def)
  have e: "has_float_mark ex \<longleftrightarrow> ex \<noteq> []"
    using assms(4) by (cases ex) (auto simp: exp_part_def has_float_mark_def)
  show ?thesis by (simp add: s d f e)
qed


lemma parse_val_num_unfold:
  "parse_val_num lib parent ps =
     (let ns = (if deref (m_next ps) = CHR ''-'' then tl (m_next ps) else m_next ps);
          p = skip_digits ns;
          p2 = exponent_end (fraction_end p)
      in if length p = length (m_next ps) then Inr None
         else if length p = length ns
           then Inl (ErrSyntax msg_no_digits (m_line_count ps))
         else if deref ns = CHR ''0'' \<and> length ns - length p > 1
           then Inl (ErrSyntax msg_leading_zero (m_line_count ps))
         else if \<not> (deref p = CHR ''.'' \<or> deref (fraction_end p) = CHR ''E'' \<or>
                   deref (fraction_end p) = CHR ''e'') then
             (case int_loop (if deref (m_next ps) = CHR ''-'' then 8 else 7) 0 ns of
                None \<Rightarrow> Inl (ErrSyntax msg_int_overflow (m_line_count ps))
              | Some n \<Rightarrow>
                  Inr (Some (init_int (add_val parent ps)
                               (if \<not> deref (m_next ps) = CHR ''-'' then - n else n),
                             ps\<lparr>m_next := p2\<rparr>)))
           else
             (case strtod lib (c_str (m_next ps)) of
                (n, consumed, erange) \<Rightarrow>
                  if erange then Inl (ErrSyntax msg_float_huge (m_line_count ps))
                  else if consumed \<noteq> length (m_next ps) - length p2
                    then Inl (ErrSyntax msg_bad_float (m_line_count ps))
                  else Inr (Some (init_f64 (add_val parent ps) n, ps\<lparr>m_next := p2\<rparr>))))"
  unfolding parse_val_num_def lex_tail
  unfolding Let_def
  by (rule refl)

lemma parse_val_num_token:
  assumes sg: "sign_part sg" and ds: "int_part ds" and fr: "frac_part fr" and ex: "exp_part ex"
    and te: "token_end fr ex rest"
    and tok: "m_next ps = sg @ ds @ fr @ ex @ rest"
  shows "parse_val_num lib parent ps =
     (if has_float_mark (sg @ ds @ fr @ ex) then
        (case strtod lib (c_str (m_next ps)) of
           (x, consumed, erange) \<Rightarrow>
             if erange then Inl (ErrSyntax msg_float_huge (m_line_count ps))
             else if consumed \<noteq> length (sg @ ds @ fr @ ex)
               then Inl (ErrSyntax msg_bad_float (m_line_count ps))
             else Inr (Some (init_f64 (add_val parent ps) x, ps\<lparr>m_next := rest\<rparr>)))
      else if i64_min \<le> (if sg = ''-'' then - dec_val ds else dec_val ds) \<and>
              (if sg = ''-'' then - dec_val ds else dec_val ds) \<le> i64_max
        then Inr (Some (init_int (add_val parent ps)
                          (word_of_int (if sg = ''-'' then - dec_val ds else dec_val ds)),
                        ps\<lparr>m_next := rest\<rparr>))
        else Inl (ErrSyntax msg_int_overflow (m_line_count ps)))"
proof -
  from ds have dne: "ds \<noteq> []" and dig: "\<forall>c\<in>set ds. is_digit c"
    and zero: "hd ds = CHR ''0'' \<longrightarrow> length ds = 1"
    by (simp_all add: int_part_def list_all_iff)
  note hm = has_float_mark_token [OF sg ds fr ex]
  from sg have sgc: "sg = (if sg = ''-'' then ''-'' else [])"
    by (auto simp: sign_part_def)
  show ?thesis
  proof (cases "fr = [] \<and> ex = []")
    case True
    from te True have r: "\<not> is_digit (deref rest)" "not_float_mark (deref rest)"
      by (simp_all add: token_end_def not_float_mark_def)
    have t: "m_next ps = (if sg = ''-'' then CHR ''-'' # ds else ds) @ rest"
      using tok True sgc by (cases "sg = ''-''") simp_all
    from True hm have "\<not> has_float_mark (sg @ ds @ fr @ ex)" by simp
    then show ?thesis
      by (simp only: if_False parse_val_num_int_range [OF dne dig r zero t])
  next
    case False
    with hm have mark: "has_float_mark (sg @ ds @ fr @ ex)" by simp
    obtain d ds' where dsc: "ds = d # ds'" using dne by (cases ds) auto
    with dig have d: "is_digit d" by simp
    note f = fraction_end_token [OF fr ex te]
    note e = exponent_end_token [OF ex te]
    have neg: "(deref (m_next ps) = CHR ''-'') = (sg = ''-'')"
      using tok sgc dsc is_digit_neq(1) [OF d] by (cases "sg = ''-''") simp_all
    have ns: "(if sg = ''-'' then tl (m_next ps) else m_next ps) = ds @ fr @ ex @ rest"
      using tok sgc by (cases "sg = ''-''") simp_all
    have p: "skip_digits (ds @ fr @ ex @ rest) = fr @ ex @ rest"
      using dig f by (intro skip_digits_append) simp_all
    have fe: "fraction_end (fr @ ex @ rest) = ex @ rest" using f by simp
    have ee: "exponent_end (ex @ rest) = rest" using e by simp
    have isf: "deref (fr @ ex @ rest) = CHR ''.'' \<or> deref (ex @ rest) = CHR ''E'' \<or>
        deref (ex @ rest) = CHR ''e''"
      using f e False by auto
    have l1: "length (fr @ ex @ rest) \<noteq> length (m_next ps)" using tok dne by simp
    have l2: "length (fr @ ex @ rest) \<noteq> length (ds @ fr @ ex @ rest)" using dne by simp
    have l3: "\<not> (deref (ds @ fr @ ex @ rest) = CHR ''0'' \<and>
        length (ds @ fr @ ex @ rest) - length (fr @ ex @ rest) > 1)"
      using zero dsc by auto
    have l4: "length (m_next ps) - length rest = length (sg @ ds @ fr @ ex)"
      using tok by simp
    show ?thesis
      unfolding parse_val_num_unfold Let_def neg ns p fe ee
      using l1 l2 l3 isf mark by (simp only: if_False if_True l4 not_True_eq_False)
  qed
qed

lemma skip_digits_deref: "\<not> is_digit (deref (skip_digits s))"
  by (induction s) (simp_all add: is_digit_def NUL_def)

lemma fraction_end_part:
  "\<exists>fr. p = fr @ fraction_end p \<and> frac_part fr \<and> (fr = [] \<longleftrightarrow> deref p \<noteq> CHR ''.'')"
proof (cases "deref p = CHR ''.''")
  case True
  then have p: "p = CHR ''.'' # tl p" by (rule deref_Cons) (simp add: NUL_def)
  obtain fs where fs: "tl p = fs @ skip_digits (tl p)" "\<forall>c\<in>set fs. is_digit c"
    using skip_digits_split by blast
  have "p = (CHR ''.'' # fs) @ fraction_end p"
    using True p fs(1) by (simp add: fraction_end_def)
  moreover have "frac_part (CHR ''.'' # fs)" using fs(2) by (simp add: frac_part_def list_all_iff)
  ultimately show ?thesis using True by blast
next
  case False
  then have "p = [] @ fraction_end p \<and> frac_part [] \<and> ([] = [] \<longleftrightarrow> deref p \<noteq> CHR ''.'')"
    by (simp add: fraction_end_def frac_part_def)
  then show ?thesis by blast
qed

lemma exponent_end_part:
  "\<exists>ex. p = ex @ exponent_end p \<and> exp_part ex \<and>
     (ex = [] \<longleftrightarrow> \<not> (deref p = CHR ''E'' \<or> deref p = CHR ''e'')) \<and>
     (length ex = 1 \<longrightarrow>
        deref (exponent_end p) \<noteq> CHR ''+'' \<and> deref (exponent_end p) \<noteq> CHR ''-'')"
proof (cases "deref p = CHR ''E'' \<or> deref p = CHR ''e''")
  case False
  then have "p = [] @ exponent_end p \<and> exp_part [] \<and>
     ([] = [] \<longleftrightarrow> \<not> (deref p = CHR ''E'' \<or> deref p = CHR ''e'')) \<and>
     (length ([] :: string) = 1 \<longrightarrow>
        deref (exponent_end p) \<noteq> CHR ''+'' \<and> deref (exponent_end p) \<noteq> CHR ''-'')"
    by (simp add: exponent_end_def exp_part_def)
  then show ?thesis by blast
next
  case True
  then have p: "p = deref p # tl p" by (intro deref_Cons) (auto simp: NUL_def)
  define q where "q = (if deref (tl p) = CHR ''+'' \<or> deref (tl p) = CHR ''-''
                       then tl (tl p) else tl p)"
  obtain xs where xs: "q = xs @ skip_digits q" "\<forall>c\<in>set xs. is_digit c"
    using skip_digits_split by blast
  have e: "exponent_end p = skip_digits q" using True by (simp add: exponent_end_def q_def)
  show ?thesis
  proof (cases "deref (tl p) = CHR ''+'' \<or> deref (tl p) = CHR ''-''")
    case sgn: True
    then have "tl p = deref (tl p) # tl (tl p)"
      by (intro deref_Cons) (auto simp: NUL_def)
    with sgn have t: "tl p = deref (tl p) # q" by (simp add: q_def)
    define ex where "ex = deref p # deref (tl p) # xs"
    have "deref p # deref (tl p) # xs @ skip_digits q = deref p # deref (tl p) # q"
      by (subst (2) xs(1)) simp
    also have "\<dots> = p" by (subst (2) p, subst t) simp
    finally have 1: "p = ex @ exponent_end p" by (simp add: ex_def e)
    have 2: "exp_part ex" using True sgn xs(2) by (auto simp: ex_def exp_part_def list_all_iff)
    have 3: "ex \<noteq> []" "length ex \<noteq> 1" by (simp_all add: ex_def)
    from 1 2 3 True show ?thesis by blast
  next
    case nosgn: False
    then have t: "tl p = q" by (simp add: q_def)
    define ex where "ex = deref p # xs"
    have "deref p # xs @ skip_digits q = deref p # q"
      by (subst (2) xs(1)) simp
    also have "\<dots> = p" by (subst (2) p, subst t) simp
    finally have 1: "p = ex @ exponent_end p" by (simp add: ex_def e)
    have dx: "xs \<noteq> [] \<Longrightarrow> deref xs \<noteq> CHR ''+'' \<and> deref xs \<noteq> CHR ''-''"
      using xs(2) by (cases xs) (auto dest: is_digit_neq)
    have 2: "exp_part ex" using True xs(2) dx
      by (cases xs) (auto simp: ex_def exp_part_def list_all_iff NUL_def)
    have 3: "ex \<noteq> []" by (simp add: ex_def)
    have 4: "length ex = 1 \<longrightarrow>
        deref (exponent_end p) \<noteq> CHR ''+'' \<and> deref (exponent_end p) \<noteq> CHR ''-''"
    proof
      assume "length ex = 1"
      then have "xs = []" by (simp add: ex_def)
      with xs(1) have "skip_digits q = q" by simp
      with e t nosgn show "deref (exponent_end p) \<noteq> CHR ''+'' \<and>
          deref (exponent_end p) \<noteq> CHR ''-''" by simp
    qed
    from 1 2 3 4 True show ?thesis by blast
  qed
qed

lemma parse_val_num_accepts:
  assumes "parse_val_num lib parent ps = Inr (Some (v, ps_e))"
  shows "\<exists>sg ds fr ex. sign_part sg \<and> int_part ds \<and> frac_part fr \<and> exp_part ex \<and>
           token_end fr ex (m_next ps_e) \<and> m_next ps = sg @ ds @ fr @ ex @ m_next ps_e"
proof -
  define ns where "ns = (if deref (m_next ps) = CHR ''-'' then tl (m_next ps) else m_next ps)"
  define p where "p = skip_digits ns"
  define p_f where "p_f = fraction_end p"
  define p_e where "p_e = exponent_end p_f"
  from assms have l: "length p \<noteq> length ns"
    and z: "\<not> (deref ns = CHR ''0'' \<and> length ns - length p > 1)"
    and pe: "m_next ps_e = p_e"
    unfolding parse_val_num_unfold Let_def ns_def [symmetric] p_def [symmetric]
      p_f_def [symmetric] p_e_def [symmetric]
    by (auto split: if_splits option.splits prod.splits)
  define sg where "sg = (if deref (m_next ps) = CHR ''-'' then ''-'' else [])"
  have 1: "sign_part sg" by (simp add: sg_def sign_part_def)
  have s: "m_next ps = sg @ ns"
    unfolding sg_def ns_def using deref_Cons [of "m_next ps" "CHR ''-''"]
    by (simp add: NUL_def)
  obtain ds where ds: "ns = ds @ p" "\<forall>c\<in>set ds. is_digit c"
    unfolding p_def using skip_digits_split by blast
  from l ds(1) have dne: "ds \<noteq> []" by auto
  have "length ns - length p = length ds" by (subst ds(1)) simp
  moreover have "deref ns = hd ds" by (subst ds(1)) (simp add: deref_append dne)
  ultimately have 2: "int_part ds" using z dne ds(2)
    by (cases ds) (auto simp: int_part_def list_all_iff)
  obtain fr where fr: "p = fr @ p_f" "frac_part fr" "fr = [] \<longleftrightarrow> deref p \<noteq> CHR ''.''"
    unfolding p_f_def using fraction_end_part by blast
  obtain ex where ex: "p_f = ex @ p_e" "exp_part ex"
    "ex = [] \<longleftrightarrow> \<not> (deref p_f = CHR ''E'' \<or> deref p_f = CHR ''e'')"
    "length ex = 1 \<longrightarrow> deref p_e \<noteq> CHR ''+'' \<and> deref p_e \<noteq> CHR ''-''"
    unfolding p_e_def using exponent_end_part by blast
  have nd: "\<not> is_digit (deref p_e)"
  proof (cases "ex = []")
    case False
    with ex(3) show ?thesis
      unfolding p_e_def by (auto simp: exponent_end_def skip_digits_deref)
  next
    case e: True
    with ex(1) have pe_f: "p_e = p_f" by simp
    show ?thesis
    proof (cases "fr = []")
      case False
      with fr(3) show ?thesis
        unfolding pe_f p_f_def by (auto simp: fraction_end_def skip_digits_deref)
    next
      case True
      with fr(1) have "p_f = p" by simp
      then show ?thesis unfolding pe_f p_def by (simp add: skip_digits_deref)
    qed
  qed
  have 3: "token_end fr ex p_e"
    unfolding token_end_def
  proof (intro conjI impI)
    show "\<not> is_digit (deref p_e)" by (rule nd)
  next
    assume a: "fr = [] \<and> ex = []"
    with fr(1) ex(1) have "p_e = p" by simp
    with a fr(3) show "deref p_e \<noteq> CHR ''.''" by simp
  next
    assume a: "ex = []"
    with ex(1) have "p_e = p_f" by simp
    with a ex(3) show "deref p_e \<noteq> CHR ''e''" by simp
  next
    assume a: "ex = []"
    with ex(1) have "p_e = p_f" by simp
    with a ex(3) show "deref p_e \<noteq> CHR ''E''" by simp
  next
    assume "length ex = 1"
    with ex(4) show "deref p_e \<noteq> CHR ''+''" by simp
  next
    assume "length ex = 1"
    with ex(4) show "deref p_e \<noteq> CHR ''-''" by simp
  qed
  have "sg @ ds @ fr @ ex @ p_e = sg @ ds @ fr @ p_f" by (simp only: ex(1) [symmetric])
  also have "\<dots> = sg @ ds @ p" by (simp only: fr(1) [symmetric])
  also have "\<dots> = sg @ ns" by (simp only: ds(1) [symmetric])
  also have "\<dots> = m_next ps" by (simp only: s)
  finally have 4: "m_next ps = sg @ ds @ fr @ ex @ m_next ps_e" by (simp only: pe)
  from 1 2 fr(2) ex(2) 3 4 pe show ?thesis by blast
qed

section \<open>Unicode escapes\<close>

text \<open>
  The reading of an escape that the facts below compare the parser with: the value of
  a hexadecimal digit, the code point of a surrogate pair, and the UTF-8 encoding of
  a code point below \<open>0x110000\<close> by division, in one to four bytes.
\<close>

definition utf8_encode :: "nat \<Rightarrow> nat list" where
  "utf8_encode cp =
     (if cp < 0x80 then [cp]
      else if cp < 0x800 then [0xC0 + cp div 0x40, 0x80 + cp mod 0x40]
      else if cp < 0x10000 then
        [0xE0 + cp div 0x1000, 0x80 + cp div 0x40 mod 0x40, 0x80 + cp mod 0x40]
      else
        [0xF0 + cp div 0x40000, 0x80 + cp div 0x1000 mod 0x40, 0x80 + cp div 0x40 mod 0x40,
         0x80 + cp mod 0x40])"

definition utf8_bytes :: "nat \<Rightarrow> string" where
  "utf8_bytes cp = map char_of (utf8_encode cp)"

definition surrogate_pair :: "nat \<Rightarrow> nat \<Rightarrow> nat" where
  "surrogate_pair high low = (push_bit 10 (high - 0xD800) OR (low - 0xDC00)) + 0x10000"

definition hex_digit :: "char \<Rightarrow> nat option" where
  "hex_digit ch =
     (let c = (of_char ch :: nat)
      in if 48 \<le> c \<and> c \<le> 57 then Some (c - 48)
         else if 65 \<le> c \<and> c \<le> 70 then Some (c - 55)
         else if 97 \<le> c \<and> c \<le> 102 then Some (c - 87)
         else None)"

lemma or_add_nat: "y < 2 ^ k \<Longrightarrow> (c * 2 ^ k) OR y = c * 2 ^ k + (y::nat)"
proof -
  assume "y < 2 ^ k"
  then have y: "take_bit k y = y" by (simp add: take_bit_nat_eq_self)
  have "push_bit k c AND take_bit k y = 0"
    by (rule bit_eqI) (auto simp: bit_simps)
  then have "push_bit k c + take_bit k y = push_bit k c OR take_bit k y"
    by (rule disjunctive_add_eq_or)
  then show ?thesis by (simp add: y push_bit_eq_mult)
qed

lemma byte_lead:
  fixes w :: "32 word"
  assumes "y < 2 ^ k" "c * 2 ^ k + y < 256" "unat x = y" "unat m = c * 2 ^ k"
  shows "(of_char (to_char (m OR x)) :: nat) = c * 2 ^ k + y"
proof -
  have "unat (m OR x) = unat m OR unat x" by (simp add: unsigned_or_eq)
  also have "\<dots> = c * 2 ^ k + y" using assms by (simp add: or_add_nat)
  finally show ?thesis using assms(2) by (simp add: to_char_def)
qed

lemma unat_drop_and:
  fixes w :: "32 word"
  shows "unat (drop_bit n w AND 0x3F) = unat w div 2 ^ n mod 64"
    and "unat (drop_bit n w AND 0xFF) = unat w div 2 ^ n mod 256"
    and "unat (w AND 0x3F) = unat w mod 64"
    and "unat (drop_bit n w) = unat w div 2 ^ n"
proof -
  have m: "(0x3F :: 32 word) = mask 6" "(0xFF :: 32 word) = mask 8"
    by (simp_all add: mask_eq_exp_minus_1)
  have "unat (drop_bit n w) = drop_bit n (unat w)"
    by (rule unat_drop_bit_eq)
  then have d: "unat (drop_bit n w) = unat w div 2 ^ n"
    by (simp only: drop_bit_eq_div)
  have "unat (take_bit k x) = take_bit k (unat x)" for k and x :: "32 word"
    by (rule unsigned_take_bit_eq)
  then have t: "unat (take_bit k x) = unat x mod 2 ^ k" for k and x :: "32 word"
    by (simp only: take_bit_eq_mod)
  show "unat (drop_bit n w) = unat w div 2 ^ n" by (rule d)
  show "unat (drop_bit n w AND 0x3F) = unat w div 2 ^ n mod 64"
    unfolding m take_bit_eq_mask [symmetric] t d by simp
  show "unat (drop_bit n w AND 0xFF) = unat w div 2 ^ n mod 256"
    unfolding m take_bit_eq_mask [symmetric] t d by simp
  show "unat (w AND 0x3F) = unat w mod 64"
    unfolding m take_bit_eq_mask [symmetric] t by simp
qed

lemma encode_bytes_utf8:
  assumes "unat code < 0x110000"
  shows "map of_char (encode_bytes code) = utf8_encode (unat code)"
proof -
  define n where "n = unat code"
  have le: "code \<le> w \<longleftrightarrow> n \<le> unat w" for w
    by (simp add: n_def word_le_nat_alt)
  have c0: "unat (0xC0 :: 32 word) = 3 * 2 ^ 6" "unat (0xE0 :: 32 word) = 7 * 2 ^ 5"
    "unat (0xF0 :: 32 word) = 15 * 2 ^ 4" "unat (0x80 :: 32 word) = 1 * 2 ^ 7"
    by simp_all
  consider "n < 0x80" | "0x80 \<le> n" "n < 0x800" | "0x800 \<le> n" "n < 0x10000"
    | "0x10000 \<le> n" "n < 0x110000"
    using assms by (fold n_def) linarith
  then show ?thesis
  proof cases
    case 1
    then show ?thesis
      by (simp add: encode_bytes_def utf8_encode_def le to_char_def flip: n_def)
  next
    case 2
    have a: "(of_char (to_char (0xC0 OR (drop_bit 6 code AND 0xFF))) :: nat) = 3 * 2 ^ 6 + n div 64"
      using 2 by (intro byte_lead c0) (simp_all add: unat_drop_and flip: n_def)
    have b: "(of_char (to_char (0x80 OR (code AND 0x3F))) :: nat) = 1 * 2 ^ 7 + n mod 64"
      using 2 by (intro byte_lead c0) (simp_all add: unat_drop_and flip: n_def)
    from 2 show ?thesis
      by (simp add: encode_bytes_def utf8_encode_def le a b flip: n_def)
  next
    case 3
    have a: "(of_char (to_char (0xE0 OR (drop_bit 12 code AND 0xFF))) :: nat) = 7 * 2 ^ 5 + n div 4096"
      using 3 by (intro byte_lead c0) (simp_all add: unat_drop_and flip: n_def)
    have b: "(of_char (to_char (0x80 OR (drop_bit 6 code AND 0x3F))) :: nat) = 1 * 2 ^ 7 + n div 64 mod 64"
      using 3 by (intro byte_lead c0) (simp_all add: unat_drop_and flip: n_def)
    have c: "(of_char (to_char (0x80 OR (code AND 0x3F))) :: nat) = 1 * 2 ^ 7 + n mod 64"
      using 3 by (intro byte_lead c0) (simp_all add: unat_drop_and flip: n_def)
    from 3 show ?thesis
      by (simp add: encode_bytes_def utf8_encode_def le a b c flip: n_def)
  next
    case 4
    have a: "(of_char (to_char (0xF0 OR (drop_bit 18 code AND 0xFF))) :: nat) = 15 * 2 ^ 4 + n div 262144"
      using 4 by (intro byte_lead c0) (simp_all add: unat_drop_and flip: n_def)
    have b: "(of_char (to_char (0x80 OR (drop_bit 12 code AND 0x3F))) :: nat) = 1 * 2 ^ 7 + n div 4096 mod 64"
      using 4 by (intro byte_lead c0) (simp_all add: unat_drop_and flip: n_def)
    have c: "(of_char (to_char (0x80 OR (drop_bit 6 code AND 0x3F))) :: nat) = 1 * 2 ^ 7 + n div 64 mod 64"
      using 4 by (intro byte_lead c0) (simp_all add: unat_drop_and flip: n_def)
    have d: "(of_char (to_char (0x80 OR (code AND 0x3F))) :: nat) = 1 * 2 ^ 7 + n mod 64"
      using 4 by (intro byte_lead c0) (simp_all add: unat_drop_and flip: n_def)
    from 4 show ?thesis
      by (simp add: encode_bytes_def utf8_encode_def le a b c d flip: n_def)
  qed
qed


lemma encode_bytes_utf8_bytes:
  assumes "unat code < 0x110000"
  shows "encode_bytes code = utf8_bytes (unat code)"
proof -
  have "map char_of (map (of_char :: char \<Rightarrow> nat) (encode_bytes code)) = encode_bytes code"
    by (simp add: comp_def)
  then show ?thesis
    by (simp only: encode_bytes_utf8 [OF assms] utf8_bytes_def)
qed

lemma parse_hex4_loop_Suc:
  "parse_hex4_loop (Suc i) code p =
     (case hex_digit (deref p) of
        None \<Rightarrow> None
      | Some d \<Rightarrow> parse_hex4_loop i (push_bit 4 code + of_nat d) (tl p))"
  by (simp add: hex_digit_def Let_def)

lemma hex_digit_less: "hex_digit c = Some d \<Longrightarrow> d < 16"
  by (auto simp: hex_digit_def Let_def split: if_splits)

lemma parse_hex4_loop_of_nat:
  "parse_hex4_loop i (of_nat a) p = Some (code', p') \<Longrightarrow>
     \<exists>b. code' = of_nat b \<and> b < (a + 1) * 16 ^ i"
proof (induction i arbitrary: a p)
  case 0
  then show ?case by auto
next
  case (Suc i)
  have step: "push_bit 4 (of_nat a :: 32 word) + of_nat d = of_nat (a * 16 + d)" for d
    by (simp add: push_bit_eq_mult)
  from Suc.prems obtain d where h: "hex_digit (deref p) = Some d"
    and r: "parse_hex4_loop i (of_nat (a * 16 + d)) (tl p) = Some (code', p')"
    unfolding parse_hex4_loop_Suc step by (auto split: option.splits)
  from h have d: "d < 16" by (rule hex_digit_less)
  from Suc.IH [OF r] obtain b where b: "code' = of_nat b" "b < (a * 16 + d + 1) * 16 ^ i"
    by blast
  from d have "a * 16 + d + 1 \<le> (a + 1) * 16" by simp
  then have "(a * 16 + d + 1) * 16 ^ i \<le> (a + 1) * 16 * 16 ^ i"
    by (rule mult_le_mono1)
  then have "(a * 16 + d + 1) * 16 ^ i \<le> (a + 1) * 16 ^ Suc i"
    by (simp only: power_Suc mult.assoc)
  with b(2) have "b < (a + 1) * 16 ^ Suc i" by (rule less_le_trans)
  with b(1) show ?case by blast
qed

lemma parse_hex4_result:
  assumes "(parse_hex4 ps :: 'f Err + 32 word \<times> Parser) = Inr (code, ps_h)"
  shows "unat code < 0x10000" and "m_line_count ps_h = m_line_count ps"
proof -
  from assms obtain p where p: "parse_hex4_loop 4 (of_nat 0) (m_next ps) = Some (code, p)"
    and h: "ps_h = ps\<lparr>m_next := p\<rparr>"
    by (auto simp: parse_hex4_def split: option.splits)
  from parse_hex4_loop_of_nat [OF p] obtain b where b: "code = of_nat b" "b < 0x10000"
    by auto
  then show "unat code < 0x10000" by (simp add: unat_of_nat)
  from h show "m_line_count ps_h = m_line_count ps" by simp
qed

lemma parse_hex4_error:
  "(parse_hex4 ps :: 'f Err + 32 word \<times> Parser) = Inl e \<Longrightarrow>
     e = ErrSyntax msg_bad_utf (m_line_count ps)"
  by (auto simp: parse_hex4_def raise_bad_utf_def split: option.splits)

lemma skip_text_line:
  "skip_text str ps = Some ps' \<Longrightarrow> m_line_count ps' = m_line_count ps"
  by (auto simp: skip_text_def Let_def split: if_splits)

lemma unat_push_bit_small:
  fixes x :: "32 word"
  assumes "unat x * 2 ^ k < 2 ^ 32"
  shows "unat (push_bit k x) = unat x * 2 ^ k"
proof -
  have "unat (push_bit k x) = take_bit 32 (push_bit k (unat x))"
    by (simp add: unsigned_push_bit_eq)
  also have "\<dots> = push_bit k (unat x)"
    using assms by (intro take_bit_nat_eq_self) (simp add: push_bit_eq_mult)
  finally show ?thesis by (simp add: push_bit_eq_mult)
qed

lemma unat_surrogate_pair:
  fixes code low :: "32 word"
  assumes "0xD800 \<le> code" "code \<le> 0xDBFF" "0xDC00 \<le> low" "low \<le> 0xDFFF"
  shows "unat ((push_bit 10 (code - 0xD800) OR (low - 0xDC00)) + 0x10000) =
           surrogate_pair (unat code) (unat low)"
    and "surrogate_pair (unat code) (unat low) =
           0x10000 + (unat code - 0xD800) * 0x400 + (unat low - 0xDC00)"
    and "surrogate_pair (unat code) (unat low) < 0x110000"
proof -
  define h l where "h = unat code - 0xD800" and "l = unat low - 0xDC00"
  from assms have hl: "h < 0x400" "l < 0x400"
    and u: "unat (code - 0xD800) = h" "unat (low - 0xDC00) = l"
    by (simp_all add: h_def l_def word_le_nat_alt unat_sub)
  have l': "l < 2 ^ 10" using hl by simp
  have "h * 2 ^ 10 < 2 ^ 32" using hl by simp
  then have p: "unat (push_bit 10 (code - 0xD800)) = h * 2 ^ 10"
    using unat_push_bit_small [of "code - 0xD800" 10] by (simp only: u)
  have o: "unat (push_bit 10 (code - 0xD800) OR (low - 0xDC00)) = h * 2 ^ 10 + l"
    by (simp only: unsigned_or_eq p u or_add_nat [OF l'])
  have "h * 2 ^ 10 + l + 0x10000 < 2 ^ 32" using hl by simp
  then have a: "unat ((push_bit 10 (code - 0xD800) OR (low - 0xDC00)) + 0x10000) =
      h * 2 ^ 10 + l + 0x10000"
    by (simp add: unat_add_lem [THEN iffD1] o)
  have s: "surrogate_pair (unat code) (unat low) = h * 2 ^ 10 + l + 0x10000"
    unfolding surrogate_pair_def h_def [symmetric] l_def [symmetric] push_bit_eq_mult
    by (simp only: or_add_nat [OF l'])
  show "unat ((push_bit 10 (code - 0xD800) OR (low - 0xDC00)) + 0x10000) =
           surrogate_pair (unat code) (unat low)"
    by (simp only: a s)
  show "surrogate_pair (unat code) (unat low) =
           0x10000 + (unat code - 0xD800) * 0x400 + (unat low - 0xDC00)"
    by (simp add: s h_def l_def)
  show "surrogate_pair (unat code) (unat low) < 0x110000"
    using hl by (simp add: s)
qed

lemma parse_hex4_value:
  assumes "m_next ps = [a, b, c, d] @ rest"
    and "hex_digit a = Some da" "hex_digit b = Some db" "hex_digit c = Some dc"
    "hex_digit d = Some dd"
  shows "(parse_hex4 ps :: 'f Err + 32 word \<times> Parser) =
           Inr (of_nat (((da * 16 + db) * 16 + dc) * 16 + dd), ps\<lparr>m_next := rest\<rparr>)"
proof -
  have step: "push_bit 4 (of_nat x :: 32 word) + of_nat y = of_nat (x * 16 + y)" for x y
    by (simp add: push_bit_eq_mult)
  have "parse_hex4_loop (Suc (Suc (Suc (Suc 0)))) (of_nat 0) ([a, b, c, d] @ rest) =
      Some (of_nat (((da * 16 + db) * 16 + dc) * 16 + dd), rest)"
    unfolding parse_hex4_loop_Suc
    by (simp only: deref.simps append_Cons append_Nil list.sel assms option.case step
        parse_hex4_loop.simps mult_0 add_0)
  then show ?thesis
    by (simp add: parse_hex4_def assms(1) numeral_eq_Suc)
qed


lemma surrogate_pair_arith:
  "low - 0xDC00 < 0x400 \<Longrightarrow>
     surrogate_pair high low = 0x10000 + (high - 0xD800) * 0x400 + (low - 0xDC00)"
  using or_add_nat [of "low - 0xDC00" 10 "high - 0xD800"]
  by (simp add: surrogate_pair_def push_bit_eq_mult)

lemma char_of_eqI: "of_char c = (n::nat) \<Longrightarrow> char_of n = c"
  by auto

section \<open>The recursion budget\<close>

text \<open>
  Every value that \<open>parse_val\<close> returns and every turn of the two loops takes at least
  one byte of the input (\<open>parse_progress\<close>), and no other function of the parser gives
  \<open>Diverged\<close>. So a budget of twice the length of the input and one more is never used
  up (\<open>parse_val_enough\<close>), and \<open>parse\<close> always returns a value or an error of the program
  (\<open>parse_returns\<close>).
\<close>

lemma skip_white_space_length:
  "length (m_next (skip_white_space ps)) \<le> length (m_next ps)"
proof (induction ps rule: skip_white_space.induct)
  case (1 ps)
  show ?case
  proof (cases "deref (m_next ps) = CHR '' '' \<or> deref (m_next ps) = CHR 0x09")
    case True
    with 1(1) have "length (m_next (skip_white_space (ps\<lparr>m_next := tl (m_next ps)\<rparr>))) \<le>
        length (tl (m_next ps))" by simp
    with True show ?thesis by (subst skip_white_space.simps) simp
  next
    case a: False
    show ?thesis
    proof (cases "deref (m_next ps) = CHR 0x0D \<or> deref (m_next ps) = CHR 0x0A")
      case True
      then have "deref (m_next ps) \<noteq> NUL" by (auto simp: NUL_def)
      from skip_to_eol_shorter [OF this] 1(2) [OF a True] a True show ?thesis
        by (subst skip_white_space.simps) simp
    next
      case b: False
      show ?thesis
      proof (cases "deref (m_next ps) = CHR ''/'' \<and> deref (tl (m_next ps)) = CHR ''/''")
        case True
        then have "deref (m_next ps) \<noteq> NUL" by (auto simp: NUL_def)
        from skip_to_eol_shorter [OF this] 1(3) [OF a b True] a b True show ?thesis
          by (subst skip_white_space.simps) simp
      next
        case False
        with a b show ?thesis by (subst skip_white_space.simps) auto
      qed
    qed
  qed
qed

lemma skip_text_shorter:
  assumes "skip_text str ps = Some ps'" "str \<noteq> []"
  shows "length (m_next ps') < length (m_next ps)"
proof -
  from assms(1) have t: "take (length str) (c_str (m_next ps)) = str"
    and p: "m_next ps' = drop (length str) (m_next ps)"
    by (auto simp: skip_text_def Let_def split: if_splits)
  have "length (c_str (m_next ps)) \<le> length (m_next ps)"
    unfolding c_str_def by (rule length_takeWhile_le)
  moreover have "length (take (length str) (c_str (m_next ps))) = length str"
    by (simp only: t)
  then have "length str \<le> length (c_str (m_next ps))"
    by simp
  ultimately show ?thesis using assms(2) p by (cases str) auto
qed

lemma parse_val_null_shorter:
  "parse_val_null parent ps = Some (v, ps') \<Longrightarrow> length (m_next ps') < length (m_next ps)"
  by (auto simp: parse_val_null_def split: option.splits dest!: skip_text_shorter)

lemma parse_val_bool_shorter:
  "parse_val_bool parent ps = Some (v, ps') \<Longrightarrow> length (m_next ps') < length (m_next ps)"
  by (auto simp: parse_val_bool_def split: option.splits dest!: skip_text_shorter)

lemma skip_digits_length: "length (skip_digits s) \<le> length s"
  by (induction s) (auto simp: le_Suc_eq)

lemma fraction_end_length: "length (fraction_end s) \<le> length s"
  using skip_digits_length [of "tl s"] by (auto simp: fraction_end_def)

lemma exponent_end_length: "length (exponent_end s) \<le> length s"
  using skip_digits_length [of "tl s"] skip_digits_length [of "tl (tl s)"]
  by (auto simp: exponent_end_def Let_def)



lemma parse_val_num_shorter:
  assumes "parse_val_num lib parent ps = Inr (Some (v, ps'))"
  shows "length (m_next ps') < length (m_next ps)"
proof -
  from parse_val_num_accepts [OF assms] obtain sg ds fr ex where
    "int_part ds" "m_next ps = sg @ ds @ fr @ ex @ m_next ps'"
    by blast
  then have "ds \<noteq> []" "length (m_next ps) = length (sg @ ds @ fr @ ex @ m_next ps')"
    by (simp_all add: int_part_def)
  then show ?thesis by simp
qed

lemma parse_val_num_error:
  assumes "parse_val_num lib parent ps = Inl e"
  shows "e \<noteq> Diverged"
proof -
  define ns where "ns = (if deref (m_next ps) = CHR ''-'' then tl (m_next ps) else m_next ps)"
  define p where "p = skip_digits ns"
  define p_e where "p_e = exponent_end (fraction_end p)"
  define a where "a \<longleftrightarrow> length p = length (m_next ps)"
  define b where "b \<longleftrightarrow> length p = length ns"
  define c where "c \<longleftrightarrow> deref ns = CHR ''0'' \<and> length ns - length p > 1"
  define d where "d \<longleftrightarrow> \<not> (deref p = CHR ''.'' \<or> deref (fraction_end p) = CHR ''E'' \<or>
                   deref (fraction_end p) = CHR ''e'')"
  define k where "k = length (m_next ps) - length p_e"
  from assms show ?thesis
    unfolding parse_val_num_unfold Let_def ns_def [symmetric] p_def [symmetric]
      p_e_def [symmetric] a_def [symmetric] b_def [symmetric] c_def [symmetric]
      d_def [symmetric] k_def [symmetric]
    by (cases a; cases b; cases c; cases d;
        cases "int_loop (if deref (m_next ps) = CHR ''-'' then 8 else 7) 0 ns";
        cases "strtod lib (c_str (m_next ps))")
      (auto split: if_splits)
qed


lemma parse_encoding_error:
  assumes "(parse_encoding ps :: 'f Err + string \<times> Parser) = Inl e"
  shows "e \<noteq> Diverged"
proof (cases "parse_hex4 ps :: 'f Err + 32 word \<times> Parser")
  case (Inl e')
  with assms have "e = e'" by (simp add: parse_encoding_def)
  with parse_hex4_error [OF Inl] show ?thesis by simp
next
  case (Inr r)
  obtain code ps_h where r: "r = (code, ps_h)" by (cases r)
  show ?thesis
  proof (cases "skip_text [CHR 0x5C, CHR ''u''] ps_h")
    case None
    with assms Inr r show ?thesis
      by (auto simp: parse_encoding_def raise_bad_utf_def split: if_splits)
  next
    case (Some ps_u)
    show ?thesis
    proof (cases "parse_hex4 ps_u :: 'f Err + 32 word \<times> Parser")
      case e2: (Inl e')
      from parse_hex4_error [OF e2] assms Inr r Some e2 show ?thesis
        by (auto simp: parse_encoding_def raise_bad_utf_def split: if_splits)
    next
      case r2: (Inr r')
      obtain low ps_e where r': "r' = (low, ps_e)" by (cases r')
      from assms Inr r Some r2 r' show ?thesis
        by (auto simp: parse_encoding_def raise_bad_utf_def split: if_splits)
    qed
  qed
qed

lemma parse_str_loop_result:
  "(parse_str_loop lib ps out = Inl e \<longrightarrow> e \<noteq> Diverged) \<and>
   (parse_str_loop lib ps out = Inr (s, ps') \<longrightarrow> length (m_next ps') < length (m_next ps))"
proof (induction lib ps out rule: parse_str_loop.induct)
  case (1 lib ps out)
  define c where "c = deref (m_next ps)"
  define ps_a where "ps_a = ps\<lparr>m_next := tl (m_next ps)\<rparr>"
  define ec where "ec = deref (m_next ps_a)"
  define ps_b where "ps_b = ps_a\<lparr>m_next := tl (m_next ps_a)\<rparr>"
  note defs = c_def [symmetric] ps_a_def [symmetric] ec_def [symmetric] ps_b_def [symmetric]
  have eq: "parse_str_loop lib ps out =
     (if c = CHR 0x22 then Inr (out, ps_a)
      else if c = CHR 0x0D \<or> c = CHR 0x0A \<or> c = NUL
        then Inl (ErrSyntax msg_line_ending (m_line_count ps))
      else if char_less_space lib c
        then Inl (ErrSyntax msg_control (m_line_count ps))
      else if c = CHR 0x5C then
        (if ec = CHR ''u'' then
           (case parse_encoding ps_b of
              Inl err \<Rightarrow> Inl err
            | Inr (bytes, ps_c) \<Rightarrow> parse_str_loop lib ps_c (out @ bytes))
         else
           (case escape_char ec of
              Some c' \<Rightarrow> parse_str_loop lib ps_b (out @ [c'])
            | None \<Rightarrow> Inl (ErrSyntax msg_bad_escape (m_line_count ps))))
      else parse_str_loop lib ps_a (out @ [c]))"
    by (subst parse_str_loop.simps) (simp only: Let_def defs)
  have la: "c \<noteq> NUL \<Longrightarrow> length (m_next ps_a) < length (m_next ps)"
    unfolding c_def ps_a_def by (cases "m_next ps") simp_all
  have lb: "length (m_next ps_b) \<le> length (m_next ps_a)"
    unfolding ps_b_def by simp
  show ?case
  proof (cases "c = CHR 0x22")
    case True
    then have "c \<noteq> NUL" by (simp add: NUL_def)
    from la [OF this] True show ?thesis by (auto simp: eq)
  next
    case q: False
    show ?thesis
    proof (cases "c = CHR 0x0D \<or> c = CHR 0x0A \<or> c = NUL")
      case True
      with q show ?thesis by (auto simp: eq)
    next
      case nl: False
      then have cn: "c \<noteq> NUL" by simp
      show ?thesis
      proof (cases "char_less_space lib c")
        case True
        with q nl show ?thesis by (auto simp: eq)
      next
        case cl: False
        show ?thesis
        proof (cases "c = CHR 0x5C")
          case False
          have IH: "(parse_str_loop lib ps_a (out @ [c]) = Inl e \<longrightarrow> e \<noteq> Diverged) \<and>
              (parse_str_loop lib ps_a (out @ [c]) = Inr (s, ps') \<longrightarrow>
                 length (m_next ps') < length (m_next ps_a))"
            using "1.IH"(3) [OF c_def ps_a_def] q nl cl False by simp
          from q nl cl False have "parse_str_loop lib ps out = parse_str_loop lib ps_a (out @ [c])"
            by (simp add: eq)
          with IH la [OF cn] show ?thesis by auto
        next
          case bs: True
          show ?thesis
          proof (cases "ec = CHR ''u''")
            case u: True
            show ?thesis
            proof (cases "parse_encoding ps_b :: 'a Err + string \<times> Parser")
              case (Inl err)
              from parse_encoding_error [OF Inl] q nl cl bs u Inl show ?thesis
                by (auto simp: eq)
            next
              case (Inr r)
              obtain bytes ps_c where r: "r = (bytes, ps_c)" by (cases r)
              from Inr r have pe: "parse_encoding ps_b = (Inr (bytes, ps_c) :: 'a Err + string \<times> Parser)"
                by simp
              have IH: "(parse_str_loop lib ps_c (out @ bytes) = Inl e \<longrightarrow> e \<noteq> Diverged) \<and>
                  (parse_str_loop lib ps_c (out @ bytes) = Inr (s, ps') \<longrightarrow>
                     length (m_next ps') < length (m_next ps_c))"
                using "1.IH"(1) [OF c_def ps_a_def _ _ _ _ ec_def ps_b_def _ pe refl] q nl cl bs u
                by simp
              from q nl cl bs u pe
              have "parse_str_loop lib ps out = parse_str_loop lib ps_c (out @ bytes)"
                by (simp add: eq)
              with IH la [OF cn] lb parse_encoding_length [OF pe] show ?thesis by auto
            qed
          next
            case nu: False
            show ?thesis
            proof (cases "escape_char ec")
              case None
              with q nl cl bs nu show ?thesis by (auto simp: eq)
            next
              case (Some c')
              have IH: "(parse_str_loop lib ps_b (out @ [c']) = Inl e \<longrightarrow> e \<noteq> Diverged) \<and>
                  (parse_str_loop lib ps_b (out @ [c']) = Inr (s, ps') \<longrightarrow>
                     length (m_next ps') < length (m_next ps_b))"
                using "1.IH"(2) [OF c_def ps_a_def _ _ _ _ ec_def ps_b_def _ Some] q nl cl bs nu
                by simp
              from q nl cl bs nu Some
              have "parse_str_loop lib ps out = parse_str_loop lib ps_b (out @ [c'])"
                by (simp add: eq)
              with IH la [OF cn] lb show ?thesis by auto
            qed
          qed
        qed
      qed
    qed
  qed
qed


lemma parse_str_result:
  "(parse_str lib ps = Inl e \<longrightarrow> e \<noteq> Diverged) \<and>
   (parse_str lib ps = Inr (Some s, ps') \<longrightarrow> length (m_next ps') < length (m_next ps)) \<and>
   (parse_str lib ps = Inr (None, ps') \<longrightarrow> ps' = ps)"
proof (cases "skip_text [CHR 0x22] ps")
  case None
  then show ?thesis by (simp add: parse_str_def)
next
  case (Some ps_a)
  from skip_text_length [OF Some] have l: "length (m_next ps_a) \<le> length (m_next ps)" .
  show ?thesis
  proof (cases "parse_str_loop lib ps_a []")
    case (Inl e')
    with parse_str_loop_result [of lib ps_a "[]" e'] Some show ?thesis
      by (auto simp: parse_str_def)
  next
    case (Inr r)
    obtain out ps_b where r: "r = (out, ps_b)" by (cases r)
    with parse_str_loop_result [of lib ps_a "[]" _ out ps_b] Inr Some l show ?thesis
      by (auto simp: parse_str_def)
  qed
qed

lemma parse_val_str_result:
  "(parse_val_str lib parent ps = Inl e \<longrightarrow> e \<noteq> Diverged) \<and>
   (parse_val_str lib parent ps = Inr (Some (v, ps')) \<longrightarrow>
      length (m_next ps') < length (m_next ps))"
proof (cases "parse_str lib ps")
  case (Inl e')
  with parse_str_result [of lib ps e'] show ?thesis by (auto simp: parse_val_str_def)
next
  case (Inr r)
  obtain so ps_a where r: "r = (so, ps_a)" by (cases r)
  show ?thesis
  proof (cases so)
    case None
    with Inr r show ?thesis by (simp add: parse_val_str_def)
  next
    case (Some str)
    with parse_str_result [of lib ps _ str ps_a] Inr r show ?thesis
      by (auto simp: parse_val_str_def)
  qed
qed

lemma parse_val_Suc_Inr:
  assumes "parse_val lib (Suc n) parent ps0 = Inr (v, ps')"
  shows "parse_val_null parent (skip_white_space ps0) = Some (v, ps') \<or>
         parse_val_bool parent (skip_white_space ps0) = Some (v, ps') \<or>
         parse_val_num lib parent (skip_white_space ps0) = Inr (Some (v, ps')) \<or>
         parse_val_str lib parent (skip_white_space ps0) = Inr (Some (v, ps')) \<or>
         parse_val_arr lib n parent (skip_white_space ps0) = Inr (Some (v, ps')) \<or>
         parse_val_obj lib n parent (skip_white_space ps0) = Inr (Some (v, ps'))"
  using assms
  by (simp add: Let_def split: option.splits sum.splits
      del: parse_val_arr.simps parse_val_obj.simps)

lemma parse_val_Suc_Inl:
  assumes "parse_val lib (Suc n) parent ps0 = Inl e"
  shows "parse_val_num lib parent (skip_white_space ps0) = Inl e \<or>
         parse_val_str lib parent (skip_white_space ps0) = Inl e \<or>
         parse_val_arr lib n parent (skip_white_space ps0) = Inl e \<or>
         parse_val_obj lib n parent (skip_white_space ps0) = Inl e \<or>
         e \<noteq> Diverged"
  using assms
  by (simp add: Let_def split: option.splits sum.splits
      del: parse_val_arr.simps parse_val_obj.simps) auto

lemma parse_val_arr_Inr:
  assumes "parse_val_arr lib n parent ps = Inr (Some (v, ps'))"
  shows "\<exists>ps_a. skip_text ''['' ps = Some ps_a \<and>
           parse_val_arr_loop lib n (init_arr (add_val parent ps_a)) ps_a = Inr (v, ps')"
  using assms by (auto split: option.splits sum.splits)

lemma parse_val_arr_Inl:
  assumes "parse_val_arr lib n parent ps = Inl e"
  shows "\<exists>ps_a. skip_text ''['' ps = Some ps_a \<and>
           parse_val_arr_loop lib n (init_arr (add_val parent ps_a)) ps_a = Inl e"
  using assms by (auto split: option.splits sum.splits)

lemma parse_val_obj_Inr:
  assumes "parse_val_obj lib n parent ps = Inr (Some (v, ps'))"
  shows "\<exists>ps_a. skip_text ''{'' ps = Some ps_a \<and>
           parse_val_obj_loop lib n (init_obj (add_val parent ps_a)) ps_a = Inr (v, ps')"
  using assms by (auto split: option.splits sum.splits)

lemma parse_val_obj_Inl:
  assumes "parse_val_obj lib n parent ps = Inl e"
  shows "\<exists>ps_a. skip_text ''{'' ps = Some ps_a \<and>
           parse_val_obj_loop lib n (init_obj (add_val parent ps_a)) ps_a = Inl e"
  using assms by (auto split: option.splits sum.splits)

lemma parse_val_arr_loop_cases:
  assumes "parse_val_arr_loop lib (Suc n) arr ps0 = r"
  shows
    "(\<exists>p. skip_text '']'' (skip_white_space ps0) = Some p \<and> r = Inr (arr, p)) \<or>
     (\<exists>e. parse_val lib n (Some arr) (skip_white_space ps0) = Inl e \<and> r = Inl e) \<or>
     (\<exists>x ps_a. parse_val lib n (Some arr) (skip_white_space ps0) = Inr (x, ps_a) \<and>
        ((\<exists>p. skip_text '']'' (skip_white_space ps_a) = Some p \<and> r = Inr (push_back arr x, p)) \<or>
         (\<exists>l. r = Inl (ErrSyntax msg_arr_expected l)) \<or>
         (\<exists>ps_b. skip_text '','' (skip_white_space ps_a) = Some ps_b \<and>
            r = parse_val_arr_loop lib n (push_back arr x) ps_b)))"
proof (cases "skip_text '']'' (skip_white_space ps0)")
  case (Some p)
  with assms have "r = Inr (arr, p)" by (simp add: Let_def)
  with Some show ?thesis by blast
next
  case None
  show ?thesis
  proof (cases "parse_val lib n (Some arr) (skip_white_space ps0)")
    case (Inl e)
    with assms None have "r = Inl e" by (simp add: Let_def)
    with Inl show ?thesis by blast
  next
    case (Inr xr)
    obtain x ps_a where xr: "xr = (x, ps_a)" by (cases xr)
    note pv = Inr [unfolded xr]
    show ?thesis
    proof (cases "skip_text '']'' (skip_white_space ps_a)")
      case (Some p)
      with assms None pv have "r = Inr (push_back arr x, p)" by (simp add: Let_def)
      with Some pv show ?thesis by blast
    next
      case cl: None
      show ?thesis
      proof (cases "skip_text '','' (skip_white_space ps_a)")
        case None
        with assms \<open>skip_text '']'' (skip_white_space ps0) = None\<close> pv cl
        have "r = Inl (ErrSyntax msg_arr_expected (m_line_count (skip_white_space ps_a)))"
          by (simp add: Let_def)
        with pv show ?thesis by blast
      next
        case (Some ps_b)
        with assms \<open>skip_text '']'' (skip_white_space ps0) = None\<close> pv cl
        have "r = parse_val_arr_loop lib n (push_back arr x) ps_b"
          by (simp add: Let_def)
        with Some pv show ?thesis by blast
      qed
    qed
  qed
qed

lemma parse_val_obj_loop_cases:
  assumes "parse_val_obj_loop lib (Suc n) obj ps0 = r"
  shows
    "(\<exists>p. skip_text ''}'' (skip_white_space ps0) = Some p \<and> r = Inr (obj, p)) \<or>
     (\<exists>e. parse_str lib (skip_white_space ps0) = Inl e \<and> r = Inl e) \<or>
     (\<exists>m l. r = Inl (ErrSyntax m l)) \<or>
     (\<exists>name ps_a ps_c.
        parse_str lib (skip_white_space ps0) = Inr (Some name, ps_a) \<and>
        skip_text '':'' (skip_white_space ps_a) = Some ps_c \<and>
        ((\<exists>e. parse_val lib n (Some obj) (skip_white_space ps_c) = Inl e \<and> r = Inl e) \<or>
         (\<exists>x ps_d obj_a.
            parse_val lib n (Some obj) (skip_white_space ps_c) = Inr (x, ps_d) \<and>
            ((\<exists>p. skip_text ''}'' (skip_white_space ps_d) = Some p \<and> r = Inr (obj_a, p)) \<or>
             (\<exists>ps_e. skip_text '','' (skip_white_space ps_d) = Some ps_e \<and>
                r = parse_val_obj_loop lib n obj_a ps_e)))))"
proof (cases "skip_text ''}'' (skip_white_space ps0)")
  case (Some p)
  with assms have "r = Inr (obj, p)" by (simp add: Let_def)
  with Some show ?thesis by blast
next
  case op: None
  show ?thesis
  proof (cases "parse_str lib (skip_white_space ps0)")
    case (Inl e)
    with assms op have "r = Inl e" by (simp add: Let_def)
    with Inl show ?thesis by blast
  next
    case (Inr sr)
    obtain so ps_a where sr: "sr = (so, ps_a)" by (cases sr)
    note st = Inr [unfolded sr]
    show ?thesis
    proof (cases so)
      case None
      with assms op st have "r = Inl (ErrSyntax msg_obj_name (m_line_count ps_a))"
        by (simp add: Let_def)
      then show ?thesis by blast
    next
      case (Some name)
      note st = st [unfolded Some]
      show ?thesis
      proof (cases "skip_text '':'' (skip_white_space ps_a)")
        case None
        with assms op st
        have "r = Inl (ErrSyntax msg_obj_colon (m_line_count (skip_white_space ps_a)))"
          by (simp add: Let_def)
        then show ?thesis by blast
      next
        case co: (Some ps_c)
        show ?thesis
        proof (cases "parse_val lib n (Some obj) (skip_white_space ps_c)")
          case (Inl e)
          with assms op st co have "r = Inl e" by (simp add: Let_def)
          with Inl st co show ?thesis by blast
        next
          case (Inr xr)
          obtain x ps_d where xr: "xr = (x, ps_d)" by (cases xr)
          note pv = Inr [unfolded xr]
          show ?thesis
          proof (cases "add_member (push_back obj x) name (ArrImpl_get_len obj)")
            case None
            with assms op st co pv
            have "r = Inl (ErrSyntax msg_obj_duplicate (m_line_count ps_d))"
              by (simp add: Let_def)
            then show ?thesis by blast
          next
            case am: (Some obj_a)
            show ?thesis
            proof (cases "skip_text ''}'' (skip_white_space ps_d)")
              case (Some p)
              with assms op st co pv am have "r = Inr (obj_a, p)" by (simp add: Let_def)
              with Some st co pv show ?thesis by blast
            next
              case cl: None
              show ?thesis
              proof (cases "skip_text '','' (skip_white_space ps_d)")
                case None
                with assms op st co pv am cl
                have "r = Inl (ErrSyntax msg_obj_expected (m_line_count (skip_white_space ps_d)))"
                  by (simp add: Let_def)
                then show ?thesis by blast
              next
                case (Some ps_e)
                with assms op st co pv am cl
                have "r = parse_val_obj_loop lib n obj_a ps_e" by (simp add: Let_def)
                with Some st co pv show ?thesis by blast
              qed
            qed
          qed
        qed
      qed
    qed
  qed
qed


lemma parse_progress:
  "(\<forall>parent ps v ps'. parse_val lib n parent ps = Inr (v, ps') \<longrightarrow>
      length (m_next ps') < length (m_next ps)) \<and>
   (\<forall>arr ps v ps'. parse_val_arr_loop lib n arr ps = Inr (v, ps') \<longrightarrow>
      length (m_next ps') < length (m_next ps)) \<and>
   (\<forall>obj ps v ps'. parse_val_obj_loop lib n obj ps = Inr (v, ps') \<longrightarrow>
      length (m_next ps') < length (m_next ps))"
proof (induction n)
  case 0
  show ?case by simp
next
  case (Suc n)
  note sw = skip_white_space_length
  from Suc have pv: "\<And>parent ps v ps'. parse_val lib n parent ps = Inr (v, ps') \<Longrightarrow>
      length (m_next ps') < length (m_next ps)"
    and al: "\<And>arr ps v ps'. parse_val_arr_loop lib n arr ps = Inr (v, ps') \<Longrightarrow>
      length (m_next ps') < length (m_next ps)"
    and ol: "\<And>obj ps v ps'. parse_val_obj_loop lib n obj ps = Inr (v, ps') \<Longrightarrow>
      length (m_next ps') < length (m_next ps)"
    by blast+
  have 1: "length (m_next ps') < length (m_next ps)"
    if a: "parse_val lib (Suc n) parent ps = Inr (v, ps')" for parent ps v ps'
  proof -
    have "length (m_next ps') < length (m_next (skip_white_space ps))"
      using parse_val_Suc_Inr [OF a]
    proof (elim disjE)
      assume "parse_val_null parent (skip_white_space ps) = Some (v, ps')"
      then show ?thesis by (rule parse_val_null_shorter)
    next
      assume "parse_val_bool parent (skip_white_space ps) = Some (v, ps')"
      then show ?thesis by (rule parse_val_bool_shorter)
    next
      assume "parse_val_num lib parent (skip_white_space ps) = Inr (Some (v, ps'))"
      then show ?thesis by (rule parse_val_num_shorter)
    next
      assume "parse_val_str lib parent (skip_white_space ps) = Inr (Some (v, ps'))"
      with parse_val_str_result [of lib parent "skip_white_space ps" _ v ps']
      show ?thesis by simp
    next
      assume "parse_val_arr lib n parent (skip_white_space ps) = Inr (Some (v, ps'))"
      from parse_val_arr_Inr [OF this] obtain ps_a where
        "skip_text ''['' (skip_white_space ps) = Some ps_a"
        "parse_val_arr_loop lib n (init_arr (add_val parent ps_a)) ps_a = Inr (v, ps')"
        by blast
      from skip_text_length [OF this(1)] al [OF this(2)] show ?thesis by simp
    next
      assume "parse_val_obj lib n parent (skip_white_space ps) = Inr (Some (v, ps'))"
      from parse_val_obj_Inr [OF this] obtain ps_a where
        "skip_text ''{'' (skip_white_space ps) = Some ps_a"
        "parse_val_obj_loop lib n (init_obj (add_val parent ps_a)) ps_a = Inr (v, ps')"
        by blast
      from skip_text_length [OF this(1)] ol [OF this(2)] show ?thesis by simp
    qed
    with sw [of ps] show ?thesis by simp
  qed
  have 2: "length (m_next ps') < length (m_next ps)"
    if a: "parse_val_arr_loop lib (Suc n) arr ps = Inr (v, ps')" for arr ps v ps'
  proof -
    from parse_val_arr_loop_cases [OF a]
    consider (close) "skip_text '']'' (skip_white_space ps) = Some ps'"
      | (last) x ps_a where "parse_val lib n (Some arr) (skip_white_space ps) = Inr (x, ps_a)"
          "skip_text '']'' (skip_white_space ps_a) = Some ps'"
      | (more) x ps_a ps_b where "parse_val lib n (Some arr) (skip_white_space ps) = Inr (x, ps_a)"
          "skip_text '','' (skip_white_space ps_a) = Some ps_b"
          "parse_val_arr_loop lib n (push_back arr x) ps_b = Inr (v, ps')"
      by (elim disjE exE conjE) auto
    then show ?thesis
    proof cases
      case close
      from skip_text_length [OF close] skip_text_shorter [OF close] sw [of ps]
      show ?thesis by simp
    next
      case last
      from pv [OF last(1)] skip_text_length [OF last(2)] sw [of ps] sw [of ps_a]
      show ?thesis by simp
    next
      case more
      from pv [OF more(1)] skip_text_length [OF more(2)] al [OF more(3)] sw [of ps] sw [of ps_a]
      show ?thesis by simp
    qed
  qed
  have 3: "length (m_next ps') < length (m_next ps)"
    if a: "parse_val_obj_loop lib (Suc n) obj ps = Inr (v, ps')" for obj ps v ps'
  proof -
    from parse_val_obj_loop_cases [OF a]
    consider (close) "skip_text ''}'' (skip_white_space ps) = Some ps'"
      | (last) name ps_a ps_c x ps_d where
          "parse_str lib (skip_white_space ps) = Inr (Some name, ps_a)"
          "skip_text '':'' (skip_white_space ps_a) = Some ps_c"
          "parse_val lib n (Some obj) (skip_white_space ps_c) = Inr (x, ps_d)"
          "skip_text ''}'' (skip_white_space ps_d) = Some ps'"
      | (more) name ps_a ps_c x ps_d obj_a ps_e where
          "parse_str lib (skip_white_space ps) = Inr (Some name, ps_a)"
          "skip_text '':'' (skip_white_space ps_a) = Some ps_c"
          "parse_val lib n (Some obj) (skip_white_space ps_c) = Inr (x, ps_d)"
          "skip_text '','' (skip_white_space ps_d) = Some ps_e"
          "parse_val_obj_loop lib n obj_a ps_e = Inr (v, ps')"
      by (elim disjE exE conjE) auto
    then show ?thesis
    proof cases
      case close
      from skip_text_shorter [OF close] sw [of ps] show ?thesis by simp
    next
      case last
      from parse_str_result [of lib "skip_white_space ps" _ name ps_a] last(1)
      have "length (m_next ps_a) < length (m_next (skip_white_space ps))" by simp
      with skip_text_length [OF last(2)] pv [OF last(3)] skip_text_length [OF last(4)]
        sw [of ps] sw [of ps_a] sw [of ps_c] sw [of ps_d]
      show ?thesis by simp
    next
      case more
      from parse_str_result [of lib "skip_white_space ps" _ name ps_a] more(1)
      have "length (m_next ps_a) < length (m_next (skip_white_space ps))" by simp
      with skip_text_length [OF more(2)] pv [OF more(3)] skip_text_length [OF more(4)]
        ol [OF more(5)] sw [of ps] sw [of ps_a] sw [of ps_c] sw [of ps_d]
      show ?thesis by simp
    qed
  qed
  from 1 2 3 show ?case by blast
qed


lemma parse_enough:
  "(\<forall>parent ps. 2 * length (m_next ps) + 1 \<le> n \<longrightarrow>
      parse_val lib n parent ps \<noteq> Inl Diverged) \<and>
   (\<forall>arr ps. 2 * length (m_next ps) + 2 \<le> n \<longrightarrow>
      parse_val_arr_loop lib n arr ps \<noteq> Inl Diverged) \<and>
   (\<forall>obj ps. 2 * length (m_next ps) + 2 \<le> n \<longrightarrow>
      parse_val_obj_loop lib n obj ps \<noteq> Inl Diverged)"
proof (induction n)
  case 0
  show ?case by simp
next
  case (Suc n)
  note sw = skip_white_space_length
  note pr = parse_progress [of lib n, THEN conjunct1, rule_format]
  from Suc have pv: "\<And>parent ps. 2 * length (m_next ps) + 1 \<le> n \<Longrightarrow>
      parse_val lib n parent ps \<noteq> Inl Diverged"
    and al: "\<And>arr ps. 2 * length (m_next ps) + 2 \<le> n \<Longrightarrow>
      parse_val_arr_loop lib n arr ps \<noteq> Inl Diverged"
    and ol: "\<And>obj ps. 2 * length (m_next ps) + 2 \<le> n \<Longrightarrow>
      parse_val_obj_loop lib n obj ps \<noteq> Inl Diverged"
    by blast+
  have 1: "parse_val lib (Suc n) parent ps \<noteq> Inl Diverged"
    if b: "2 * length (m_next ps) + 1 \<le> Suc n" for parent ps
  proof
    assume a: "parse_val lib (Suc n) parent ps = Inl Diverged"
    from parse_val_Suc_Inl [OF a] show False
    proof (elim disjE)
      assume "parse_val_num lib parent (skip_white_space ps) = Inl Diverged"
      from parse_val_num_error [OF this] show False by simp
    next
      assume "parse_val_str lib parent (skip_white_space ps) = Inl Diverged"
      with parse_val_str_result [of lib parent "skip_white_space ps" Diverged]
      show False by simp
    next
      assume "parse_val_arr lib n parent (skip_white_space ps) = Inl Diverged"
      from parse_val_arr_Inl [OF this] obtain ps_a where
        s: "skip_text ''['' (skip_white_space ps) = Some ps_a" and
        l: "parse_val_arr_loop lib n (init_arr (add_val parent ps_a)) ps_a = Inl Diverged"
        by blast
      from skip_text_shorter [OF s] sw [of ps] b have "2 * length (m_next ps_a) + 2 \<le> n"
        by simp
      from al [OF this] l show False by simp
    next
      assume "parse_val_obj lib n parent (skip_white_space ps) = Inl Diverged"
      from parse_val_obj_Inl [OF this] obtain ps_a where
        s: "skip_text ''{'' (skip_white_space ps) = Some ps_a" and
        l: "parse_val_obj_loop lib n (init_obj (add_val parent ps_a)) ps_a = Inl Diverged"
        by blast
      from skip_text_shorter [OF s] sw [of ps] b have "2 * length (m_next ps_a) + 2 \<le> n"
        by simp
      from ol [OF this] l show False by simp
    next
      assume "Diverged \<noteq> (Diverged :: 'a Err)"
      then show False by simp
    qed
  qed
  have 2: "parse_val_arr_loop lib (Suc n) arr ps \<noteq> Inl Diverged"
    if b: "2 * length (m_next ps) + 2 \<le> Suc n" for arr ps
  proof
    assume a: "parse_val_arr_loop lib (Suc n) arr ps = Inl Diverged"
    from parse_val_arr_loop_cases [OF a]
    consider (elem) "parse_val lib n (Some arr) (skip_white_space ps) = Inl Diverged"
      | (more) x ps_a ps_b where "parse_val lib n (Some arr) (skip_white_space ps) = Inr (x, ps_a)"
          "skip_text '','' (skip_white_space ps_a) = Some ps_b"
          "parse_val_arr_loop lib n (push_back arr x) ps_b = Inl Diverged"
      by (elim disjE exE conjE) auto
    then show False
    proof cases
      case elem
      from sw [of ps] b have "2 * length (m_next (skip_white_space ps)) + 1 \<le> n" by simp
      from pv [OF this] elem show False by simp
    next
      case more
      from pr [OF more(1)] skip_text_shorter [OF more(2)] sw [of ps] sw [of ps_a] b
      have "2 * length (m_next ps_b) + 2 \<le> n" by simp
      from al [OF this] more(3) show False by simp
    qed
  qed
  have 3: "parse_val_obj_loop lib (Suc n) obj ps \<noteq> Inl Diverged"
    if b: "2 * length (m_next ps) + 2 \<le> Suc n" for obj ps
  proof
    assume a: "parse_val_obj_loop lib (Suc n) obj ps = Inl Diverged"
    from parse_val_obj_loop_cases [OF a]
    consider (name) "parse_str lib (skip_white_space ps) = Inl Diverged"
      | (elem) name ps_a ps_c where
          "parse_str lib (skip_white_space ps) = Inr (Some name, ps_a)"
          "skip_text '':'' (skip_white_space ps_a) = Some ps_c"
          "parse_val lib n (Some obj) (skip_white_space ps_c) = Inl Diverged"
      | (more) name ps_a ps_c x ps_d obj_a ps_e where
          "parse_str lib (skip_white_space ps) = Inr (Some name, ps_a)"
          "skip_text '':'' (skip_white_space ps_a) = Some ps_c"
          "parse_val lib n (Some obj) (skip_white_space ps_c) = Inr (x, ps_d)"
          "skip_text '','' (skip_white_space ps_d) = Some ps_e"
          "parse_val_obj_loop lib n obj_a ps_e = Inl Diverged"
      by (elim disjE exE conjE) auto
    then show False
    proof cases
      case name
      with parse_str_result [of lib "skip_white_space ps" Diverged] show False by simp
    next
      case elem
      from parse_str_result [of lib "skip_white_space ps" _ name ps_a] elem(1)
      have "length (m_next ps_a) < length (m_next (skip_white_space ps))" by simp
      with skip_text_shorter [OF elem(2)] sw [of ps] sw [of ps_a] sw [of ps_c] b
      have "2 * length (m_next (skip_white_space ps_c)) + 1 \<le> n" by simp
      from pv [OF this] elem(3) show False by simp
    next
      case more
      from parse_str_result [of lib "skip_white_space ps" _ name ps_a] more(1)
      have "length (m_next ps_a) < length (m_next (skip_white_space ps))" by simp
      with skip_text_shorter [OF more(2)] pr [OF more(3)] skip_text_shorter [OF more(4)]
        sw [of ps] sw [of ps_a] sw [of ps_c] sw [of ps_d] b
      have "2 * length (m_next ps_e) + 2 \<le> n" by simp
      from ol [OF this] more(5) show False by simp
    qed
  qed
  from 1 2 3 show ?case by blast
qed

lemma parse_val_enough:
  "2 * length (m_next ps) + 1 \<le> n \<Longrightarrow> parse_val lib n parent ps \<noteq> Inl Diverged"
  using parse_enough [of n lib] by blast

lemma parse_returns: "parse lib ps \<noteq> Inl Diverged"
proof -
  have "parse_val lib (2 * length (m_next ps) + 2) None ps \<noteq> Inl Diverged"
    by (rule parse_val_enough) simp
  then show ?thesis
    by (auto simp: parse_def Let_def split: sum.splits)
qed

lemma parse_in_place_returns: "parse_in_place lib str \<noteq> Inl Diverged"
  by (simp add: parse_in_place_def parse_returns)

section \<open>Facts about the two loops\<close>

lemma skip_text_other:
  "skip_text [a] ps = Some ps1 \<Longrightarrow> a \<noteq> b \<Longrightarrow> skip_text [b] ps = None"
  by (cases "c_str (m_next ps)") (auto simp: skip_text_def Let_def split: if_splits)

lemma parse_val_arr_loop_close:
  "skip_text '']'' (skip_white_space ps) = Some ps1 \<Longrightarrow>
     parse_val_arr_loop lib (Suc n) arr ps = Inr (arr, ps1)"
  by (simp add: Let_def)

lemma parse_val_obj_loop_close:
  "skip_text ''}'' (skip_white_space ps) = Some ps1 \<Longrightarrow>
     parse_val_obj_loop lib (Suc n) obj ps = Inr (obj, ps1)"
  by (simp add: Let_def)

section \<open>The claims\<close>

text \<open>
  C1 (as amended). A trailing comma immediately before the closing bracket is accepted:
  when the array loop has parsed a value and a \<open>,\<close> follows, white space and then \<open>]\<close>
  end the array with the elements parsed so far, and the object loop does the same with
  \<open>}\<close> after a member and a \<open>,\<close>. The claim as stated fails: the document \<open>[1, 2,]\<close>
  parses to the array of 1 and 2, and an object ending \<open>,}\<close> parses too.
\<close>

theorem C1_trailing_comma_accepted:
  "(skip_text '']'' (skip_white_space ps) = None \<and>
    parse_val lib (Suc n) (Some arr) (skip_white_space ps) = Inr (v, ps_v) \<and>
    skip_text '','' (skip_white_space ps_v) = Some ps_c \<and>
    skip_text '']'' (skip_white_space ps_c) = Some ps_e \<longrightarrow>
      parse_val_arr_loop lib (Suc (Suc n)) arr ps = Inr (push_back arr v, ps_e)) \<and>
   (skip_text ''}'' (skip_white_space qs) = None \<and>
    parse_str lib (skip_white_space qs) = Inr (Some name, qs_n) \<and>
    skip_text '':'' (skip_white_space qs_n) = Some qs_k \<and>
    parse_val lib (Suc n) (Some obj) (skip_white_space qs_k) = Inr (w, qs_v) \<and>
    add_member (push_back obj w) name (ArrImpl_get_len obj) = Some obj_m \<and>
    skip_text '','' (skip_white_space qs_v) = Some qs_c \<and>
    skip_text ''}'' (skip_white_space qs_c) = Some qs_e \<longrightarrow>
      parse_val_obj_loop lib (Suc (Suc n)) obj qs = Inr (obj_m, qs_e))"
proof (intro conjI impI)
  assume a: "skip_text '']'' (skip_white_space ps) = None \<and>
    parse_val lib (Suc n) (Some arr) (skip_white_space ps) = Inr (v, ps_v) \<and>
    skip_text '','' (skip_white_space ps_v) = Some ps_c \<and>
    skip_text '']'' (skip_white_space ps_c) = Some ps_e"
  then have "skip_text '']'' (skip_white_space ps_v) = None"
    by (auto intro: skip_text_other)
  moreover from a have "parse_val_arr_loop lib (Suc n) (push_back arr v) ps_c = Inr (push_back arr v, ps_e)"
    by (intro parse_val_arr_loop_close) simp
  ultimately show "parse_val_arr_loop lib (Suc (Suc n)) arr ps = Inr (push_back arr v, ps_e)"
    using a by (subst parse_val_arr_loop.simps) (simp add: Let_def del: parse_val_arr_loop.simps parse_val.simps)
next
  assume a: "skip_text ''}'' (skip_white_space qs) = None \<and>
    parse_str lib (skip_white_space qs) = Inr (Some name, qs_n) \<and>
    skip_text '':'' (skip_white_space qs_n) = Some qs_k \<and>
    parse_val lib (Suc n) (Some obj) (skip_white_space qs_k) = Inr (w, qs_v) \<and>
    add_member (push_back obj w) name (ArrImpl_get_len obj) = Some obj_m \<and>
    skip_text '','' (skip_white_space qs_v) = Some qs_c \<and>
    skip_text ''}'' (skip_white_space qs_c) = Some qs_e"
  then have "skip_text ''}'' (skip_white_space qs_v) = None"
    by (auto intro: skip_text_other)
  moreover from a have "parse_val_obj_loop lib (Suc n) obj_m qs_c = Inr (obj_m, qs_e)"
    by (intro parse_val_obj_loop_close) simp
  ultimately show "parse_val_obj_loop lib (Suc (Suc n)) obj qs = Inr (obj_m, qs_e)"
    using a by (subst parse_val_obj_loop.simps) (simp add: Let_def del: parse_val_obj_loop.simps parse_val.simps)
qed

theorem C1_trailing_comma_counterexample:
  "parse_in_place example_platform ''[1, 2,]'' =
     Inr (ValImpl (DArr [ValImpl (DInt 1) False 1 [] 0, ValImpl (DInt 2) False 1 [] 1])
            False 1 [] (- 1)) \<and>
   parse_in_place example_platform (''{'' @ [CHR 0x22] @ ''a'' @ [CHR 0x22] @ '': 1,}'') =
     Inr (ValImpl (DObj [ValImpl (DInt 1) False 1 ''a'' 0] [(''a'', 0)]) False 1 [] (- 1))"
  by code_simp


theorem C1_trailing_comma_accepted_witness:
  "parse_val_arr_loop example_platform (Suc (Suc 0))
     (ValImpl (DArr [ValImpl (DInt 1) False 1 [] 0]) False 1 [] (- 1))
     \<lparr>m_next = '' 2 , ]'', m_line_count = 1\<rparr> =
     Inr (ValImpl (DArr [ValImpl (DInt 1) False 1 [] 0, ValImpl (DInt 2) False 1 [] 1])
            False 1 [] (- 1),
          \<lparr>m_next = [], m_line_count = 1\<rparr>) \<and>
   parse_val_obj_loop example_platform (Suc (Suc 0))
     (ValImpl (DObj [] []) False 1 [] (- 1))
     \<lparr>m_next = [CHR 0x22] @ ''a'' @ [CHR 0x22] @ '': 1, }'', m_line_count = 1\<rparr> =
     Inr (ValImpl (DObj [ValImpl (DInt 1) False 1 ''a'' 0] [(''a'', 0)]) False 1 [] (- 1),
          \<lparr>m_next = [], m_line_count = 1\<rparr>)"
proof -
  let ?arr = "ValImpl (DArr [ValImpl (DInt 1) False 1 [] 0]) False 1 [] (- 1) :: int ValImpl"
  let ?ps = "\<lparr>m_next = '' 2 , ]'', m_line_count = 1\<rparr>"
  let ?v = "ValImpl (DInt 2) False 1 [] 1 :: int ValImpl"
  let ?ps1 = "\<lparr>m_next = '' , ]'', m_line_count = 1\<rparr>"
  let ?ps2 = "\<lparr>m_next = '' ]'', m_line_count = 1\<rparr>"
  let ?ps3 = "\<lparr>m_next = [], m_line_count = 1\<rparr>"
  have a: "skip_text '']'' (skip_white_space ?ps) = None \<and>
    parse_val example_platform (Suc 0) (Some ?arr) (skip_white_space ?ps) = Inr (?v, ?ps1) \<and>
    skip_text '','' (skip_white_space ?ps1) = Some ?ps2 \<and>
    skip_text '']'' (skip_white_space ?ps2) = Some ?ps3"
    by code_simp
  have pb: "push_back ?arr ?v =
      ValImpl (DArr [ValImpl (DInt 1) False 1 [] 0, ValImpl (DInt 2) False 1 [] 1]) False 1 [] (- 1)"
    by code_simp
  let ?obj = "ValImpl (DObj [] []) False 1 [] (- 1) :: int ValImpl"
  let ?qs = "\<lparr>m_next = [CHR 0x22] @ ''a'' @ [CHR 0x22] @ '': 1, }'', m_line_count = 1\<rparr>"
  let ?qs1 = "\<lparr>m_next = '': 1, }'', m_line_count = 1\<rparr>"
  let ?qs2 = "\<lparr>m_next = '' 1, }'', m_line_count = 1\<rparr>"
  let ?w = "ValImpl (DInt 1) False 1 [] 0 :: int ValImpl"
  let ?qs3 = "\<lparr>m_next = '', }'', m_line_count = 1\<rparr>"
  let ?qs4 = "\<lparr>m_next = '' }'', m_line_count = 1\<rparr>"
  let ?obj1 = "ValImpl (DObj [ValImpl (DInt 1) False 1 ''a'' 0] [(''a'', 0)]) False 1 [] (- 1) :: int ValImpl"
  have b: "skip_text ''}'' (skip_white_space ?qs) = None \<and>
    parse_str example_platform (skip_white_space ?qs) = Inr (Some ''a'', ?qs1) \<and>
    skip_text '':'' (skip_white_space ?qs1) = Some ?qs2 \<and>
    parse_val example_platform (Suc 0) (Some ?obj) (skip_white_space ?qs2) = Inr (?w, ?qs3) \<and>
    add_member (push_back ?obj ?w) ''a'' (ArrImpl_get_len ?obj) = Some ?obj1 \<and>
    skip_text '','' (skip_white_space ?qs3) = Some ?qs4 \<and>
    skip_text ''}'' (skip_white_space ?qs4) = Some ?ps3"
    by code_simp
  note t = C1_trailing_comma_accepted [where lib = example_platform and n = 0
      and ps = ?ps and arr = ?arr and v = ?v and ps_v = ?ps1 and ps_c = ?ps2 and ps_e = ?ps3
      and qs = ?qs and name = "''a''" and qs_n = ?qs1 and qs_k = ?qs2 and obj = ?obj and w = ?w
      and qs_v = ?qs3 and obj_m = ?obj1 and qs_c = ?qs4 and qs_e = ?ps3]
  from t a have "parse_val_arr_loop example_platform (Suc (Suc 0)) ?arr ?ps =
      Inr (push_back ?arr ?v, ?ps3)"
    by blast
  moreover from t b have "parse_val_obj_loop example_platform (Suc (Suc 0)) ?obj ?qs =
      Inr (?obj1, ?ps3)"
    by blast
  ultimately show ?thesis
    unfolding pb by blast
qed


text \<open>
  C3. Integer parsing accepts exactly the signed 64-bit range. A document that is an
  integer token, an optional \<open>-\<close> and digits with no zero before another digit, parses to
  the \<open>Int\<close> of its value when the value lies in \<open>[-2^63, 2^63 - 1]\<close>, and fails with the
  syntax error "invalid number syntax: integer doesn't fit in 64 bits" otherwise; it never
  becomes a \<open>Float\<close>. So \<open>9223372036854775807\<close> and \<open>-9223372036854775808\<close> parse to these
  values, and \<open>9223372036854775808\<close> and \<open>-9223372036854775809\<close> fail.
\<close>

theorem C3_int_range:
  assumes "ds \<noteq> []" and "\<forall>c\<in>set ds. is_digit c"
    and "hd ds = CHR ''0'' \<longrightarrow> length ds = 1"
  shows "parse_in_place lib (if neg then CHR ''-'' # ds else ds) =
     (if i64_min \<le> (if neg then - dec_val ds else dec_val ds) \<and>
         (if neg then - dec_val ds else dec_val ds) \<le> i64_max
      then Inr (ValImpl (DInt (word_of_int (if neg then - dec_val ds else dec_val ds)))
                  False 1 [] (- 1))
      else Inl (ErrSyntax msg_int_overflow 1)) \<and>
     (i64_min \<le> (if neg then - dec_val ds else dec_val ds) \<and>
      (if neg then - dec_val ds else dec_val ds) \<le> i64_max \<longrightarrow>
        sint (word_of_int (if neg then - dec_val ds else dec_val ds) :: i64) =
          (if neg then - dec_val ds else dec_val ds))"
proof
  show "parse_in_place lib (if neg then CHR ''-'' # ds else ds) =
     (if i64_min \<le> (if neg then - dec_val ds else dec_val ds) \<and>
         (if neg then - dec_val ds else dec_val ds) \<le> i64_max
      then Inr (ValImpl (DInt (word_of_int (if neg then - dec_val ds else dec_val ds)))
                  False 1 [] (- 1))
      else Inl (ErrSyntax msg_int_overflow 1))"
    unfolding parse_int_document [OF assms] int_limit_range [OF assms(2)]
    by (simp add: acc_val_dec_val)
  show "i64_min \<le> (if neg then - dec_val ds else dec_val ds) \<and>
      (if neg then - dec_val ds else dec_val ds) \<le> i64_max \<longrightarrow>
        sint (word_of_int (if neg then - dec_val ds else dec_val ds) :: i64) =
          (if neg then - dec_val ds else dec_val ds)"
    using sint_i64_of_int [of "if neg then - dec_val ds else dec_val ds"]
    by (simp add: i64_min_def i64_max_def)
qed

theorem C3_int_range_witness:
  "parse_in_place example_platform ''9223372036854775807'' =
     Inr (ValImpl (DInt 9223372036854775807) False 1 [] (- 1)) \<and>
   parse_in_place example_platform ''-9223372036854775808'' =
     Inr (ValImpl (DInt (- 9223372036854775808)) False 1 [] (- 1)) \<and>
   parse_in_place example_platform ''9223372036854775808'' =
     Inl (ErrSyntax msg_int_overflow 1) \<and>
   parse_in_place example_platform ''-9223372036854775809'' =
     Inl (ErrSyntax msg_int_overflow 1) \<and>
   parse_in_place example_platform ''10000000000000000000'' =
     Inl (ErrSyntax msg_int_overflow 1) \<and>
   sint (9223372036854775807 :: i64) = 9223372036854775807 \<and>
   sint (- 9223372036854775808 :: i64) = - 9223372036854775808"
  using C3_int_range [where ds = "''9223372036854775807''" and neg = False
      and lib = example_platform]
    C3_int_range [where ds = "''9223372036854775808''" and neg = True
      and lib = example_platform]
    C3_int_range [where ds = "''9223372036854775808''" and neg = False
      and lib = example_platform]
    C3_int_range [where ds = "''9223372036854775809''" and neg = True
      and lib = example_platform]
    C3_int_range [where ds = "''10000000000000000000''" and neg = False
      and lib = example_platform]
  by (simp add: is_digit_def dec_val_def i64_min_def i64_max_def)

text \<open>
  C6. Integer round trip: for every signed 64-bit integer \<open>n\<close>, the decimal rendering of
  \<open>n\<close> parses, as a document of one value, to an \<open>Int\<close> value, and \<open>as_int().get()\<close> on it
  returns \<open>n\<close>.
\<close>

theorem C6_int_round_trip:
  "parse_in_place lib (render_i64 n) = Inr (ValImpl (DInt n) False 1 [] (- 1)) \<and>
   and_then (parse_in_place lib (render_i64 n))
     (\<lambda>v. and_then (as_int v) (\<lambda>i. Inr (Int_get i))) = Inr n"
  by (simp add: parse_render_i64 and_then_def as_int_def val_cast_def Int_get_def vtInt_def)

theorem C6_int_round_trip_witness:
  "parse_in_place example_platform ''-42'' = Inr (ValImpl (DInt (- 42)) False 1 [] (- 1)) \<and>
   and_then (parse_in_place example_platform ''-42'')
     (\<lambda>v. and_then (as_int v) (\<lambda>i. Inr (Int_get i))) = Inr (- 42)"
proof -
  have r: "render_i64 (- 42) = ''-42''"
    by code_simp
  show ?thesis
    using C6_int_round_trip [of example_platform "- 42"] unfolding r .
qed

text \<open>
  C7. \<open>as_f64\<close> succeeds on a value whose tag is \<open>Int\<close> or \<open>Float\<close> and fails with a
  bad-type error (expected type \<open>vtF64\<close>) on every other tag. \<open>F64::get\<close> then returns
  the stored 64-bit integer converted to \<open>double\<close> when the tag is \<open>Int\<close>, and the stored
  \<open>double\<close> when it is \<open>Float\<close>. The conversion is the platform's \<open>double_of_i64\<close>.
\<close>

theorem C7_as_f64:
  "as_f64 v =
     (if get_type v = vtInt \<or> get_type v = vtF64 then Inr v
      else Inl (ErrBadType (ErrValue ''bad type'' (m_line_no v) (m_name v) (m_idx v) (get_type v)) vtF64)) \<and>
   F64_get lib v =
     (if get_type v = vtInt then double_of_i64 lib (data_i64 (m_data v)) else data_f64 (m_data v)) \<and>
   F64_get lib (ValImpl (DInt n) u l nm i) = double_of_i64 lib n \<and>
   F64_get lib (ValImpl (DF64 x) u l nm i) = x"
  by (cases "m_data v")
    (simp_all add: as_f64_def val_cast_def F64_get_def mk_ErrBadType_def mk_ErrValue_def
       get_line_def get_name_def get_idx_def ValType_defs)

theorem C7_as_f64_witness:
  "as_f64 (ValImpl (DInt 5) False 1 [] 0 :: int ValImpl) = Inr (ValImpl (DInt 5) False 1 [] 0) \<and>
   F64_get example_platform (ValImpl (DInt 5) False 1 [] 0) = 5 \<and>
   as_f64 (ValImpl (DStr ''x'') False 1 [] 0 :: int ValImpl) =
     Inl (ErrBadType (ErrValue ''bad type'' 1 [] 0 vtStr) vtF64)"
  using C7_as_f64 [of "ValImpl (DInt 5) False 1 [] 0" example_platform]
    C7_as_f64 [of "ValImpl (DStr ''x'') False 1 [] 0 :: int ValImpl" example_platform]
  by (simp add: example_platform_def ValType_defs)

text \<open>
  C8. For an \<open>Int\<close> value holding \<open>n\<close>: \<open>Int::get(lo, hi)\<close> with \<open>lo \<le> hi\<close> returns \<open>n\<close> when
  \<open>lo \<le> n \<le> hi\<close> and fails with a bad-int-range error carrying \<open>lo\<close> and \<open>hi\<close>
  otherwise; with \<open>lo > hi\<close> it returns \<open>n\<close> unchecked. \<open>Int::get_i32(lo, hi)\<close> with
  \<open>lo > hi\<close> checks \<open>n\<close> against \<open>INT32_MIN\<close> and \<open>INT32_MAX\<close>, and with \<open>lo \<le> hi\<close> against
  \<open>lo\<close> and \<open>hi\<close>. The comparisons are the signed ones.
\<close>

theorem C8_int_get:
  "Int_get_range (ValImpl (DInt n) u l nm i :: 'f ValImpl) lo hi =
     (if lo \<le>s hi \<and> \<not> (lo \<le>s n \<and> n \<le>s hi)
      then Inl (ErrBadIntRange (ErrValue ''bad integer range'' l nm i vtInt) lo hi)
      else Inr n) \<and>
   Int_get_i32 (ValImpl (DInt n) u l nm i :: 'f ValImpl) lo_w hi_w =
     (if hi_w <s lo_w
      then (if - 2147483648 \<le> sint n \<and> sint n \<le> 2147483647 then Inr (ucast n)
            else Inl (ErrBadIntRange (ErrValue ''bad integer range'' l nm i vtInt)
                        (- 2147483648) 2147483647))
      else (if sint lo_w \<le> sint n \<and> sint n \<le> sint hi_w then Inr (ucast n)
            else Inl (ErrBadIntRange (ErrValue ''bad integer range'' l nm i vtInt)
                        (scast lo_w) (scast hi_w))))"
  unfolding Int_get_range_DInt Int_get_i32_DInt word_sle_eq word_sless_alt by simp

theorem C8_int_get_witness:
  "Int_get_i32 (ValImpl (DInt 70000) False 1 ''port'' 0 :: int ValImpl) 1 65535 =
     Inl (ErrBadIntRange (ErrValue ''bad integer range'' 1 ''port'' 0 vtInt) 1 65535) \<and>
   Int_get_range (ValImpl (DInt 70000) False 1 ''port'' 0 :: int ValImpl) 1 65535 =
     Inl (ErrBadIntRange (ErrValue ''bad integer range'' 1 ''port'' 0 vtInt) 1 65535) \<and>
   Int_get_range (ValImpl (DInt 70000) False 1 ''port'' 0 :: int ValImpl) 0 (- 1) = Inr 70000 \<and>
   Int_get_i32 (ValImpl (DInt 70000) False 1 ''port'' 0 :: int ValImpl) 0 (- 1) = Inr 70000 \<and>
   Int_get_i32 (ValImpl (DInt 3000000000) False 1 ''port'' 0 :: int ValImpl) 0 (- 1) =
     Inl (ErrBadIntRange (ErrValue ''bad integer range'' 1 ''port'' 0 vtInt)
            (- 2147483648) 2147483647)"
  using C8_int_get [where n = 70000 and u = False and l = 1 and nm = "''port''" and i = 0
     and lo = 1 and hi = 65535 and lo_w = 1 and hi_w = 65535, where ?'f = int]
    C8_int_get [where n = 70000 and u = False and l = 1 and nm = "''port''" and i = 0
     and lo = 0 and hi = "- 1" and lo_w = 0 and hi_w = "- 1", where ?'f = int]
    C8_int_get [where n = 3000000000 and u = False and l = 1 and nm = "''port''" and i = 0
     and lo = 0 and hi = "- 1" and lo_w = 0 and hi_w = "- 1", where ?'f = int]
  by (simp add: word_sle_eq word_sless_alt)

text \<open>
  C2. \<open>reject_unknow_members(v)\<close> succeeds if and only if, in the subtree of \<open>v\<close>, every
  direct child of every object has its accessed flag set. Otherwise it fails with an
  unknown-member error that reports a value whose flag is not set and which is a direct
  child of an object of the subtree: an array element is never reported, and the
  objects inside arrays are checked. After \<open>ignore_members(v)\<close> it succeeds.
\<close>

theorem C2_reject_unknow_members:
  "((reject_unknow_members v = Inr ()) \<longleftrightarrow> members_accessed v) \<and>
   (\<forall>e. reject_unknow_members v = Inl e \<longrightarrow>
      (\<exists>obj c. obj \<in> set (subvals v) \<and> get_type obj = vtObj \<and>
         c \<in> set (values_of (m_data obj)) \<and> \<not> m_used c \<and> e = mk_ErrUnknownMember c)) \<and>
   reject_unknow_members (ignore_members v) = Inr ()"
proof (intro conjI allI impI)
  show "(reject_unknow_members v = Inr ()) \<longleftrightarrow> members_accessed v"
    unfolding reject_unknow_members_def by (rule reject_ok_iff(1))
next
  fix e
  assume "reject_unknow_members v = Inl e"
  then have "do_reject_unknow_members v = Inl e"
    by (simp add: reject_unknow_members_def)
  then show "\<exists>obj c. obj \<in> set (subvals v) \<and> get_type obj = vtObj \<and>
         c \<in> set (values_of (m_data obj)) \<and> \<not> m_used c \<and> e = mk_ErrUnknownMember c"
    by (rule reject_error(1))
next
  have "members_accessed (do_ignore_members v)"
    using ignore_marks(1) [of v] by simp
  then show "reject_unknow_members (ignore_members v) = Inr ()"
    unfolding reject_unknow_members_def ignore_members_def by (simp add: reject_ok_iff(1))
qed

theorem C2_reject_unknow_members_witness:
  "reject_unknow_members example_root =
     Inl (ErrUnknownMember (ErrValue ''unknown member'' 1 ''known'' 0 vtInt)) \<and>
   \<not> members_accessed example_root \<and>
   reject_unknow_members (after_call example_platform (Obj_get_arr_call ''extra'')
      (after_call example_platform (Obj_get_member_call ''known'' True) example_root)) =
     Inl (ErrUnknownMember (ErrValue ''unknown member'' 1 ''a'' 0 vtInt)) \<and>
   members_accessed (ignore_members example_root) \<and>
   reject_unknow_members (ignore_members example_root) = Inr ()"
proof -
  have a: "reject_unknow_members example_root =
     Inl (ErrUnknownMember (ErrValue ''unknown member'' 1 ''known'' 0 vtInt))"
    by code_simp
  have b: "reject_unknow_members (after_call example_platform (Obj_get_arr_call ''extra'')
      (after_call example_platform (Obj_get_member_call ''known'' True) example_root)) =
     Inl (ErrUnknownMember (ErrValue ''unknown member'' 1 ''a'' 0 vtInt))"
    by code_simp
  from a C2_reject_unknow_members [of example_root] have c: "\<not> members_accessed example_root"
    by simp
  from C2_reject_unknow_members [of "ignore_members example_root"]
    C2_reject_unknow_members [of example_root]
  have d: "members_accessed (ignore_members example_root)"
    "reject_unknow_members (ignore_members example_root) = Inr ()"
    by simp_all
  from a b c d show ?thesis by simp
qed

text \<open>
  C9. The accessed flag is monotonic. Each element or member getter that returns a
  value or a narrowed view of one (\<open>Arr::get_element\<close>, \<open>get_arr\<close>, \<open>get_obj\<close>,
  \<open>Obj::get_member\<close>, \<open>get_arr\<close>, \<open>get_obj\<close>) returns it with the flag set, and so it stands
  in the container after the call. After any sequence of calls of the accessors that
  write, each on any value of the tree, the tree is the same but for flags that were
  set, and every value whose flag was set still has its flag set.
\<close>

theorem C9_accessed_monotonic:
  "(\<forall>v this1. Arr_get_element (this :: 'f ValImpl) idx = (Inr v, this1) \<longrightarrow>
      m_used v \<and> ArrImpl_get_element this1 idx = Inr v) \<and>
   (\<forall>v this1. Arr_get_arr this idx = (Inr v, this1) \<longrightarrow>
      m_used v \<and> ArrImpl_get_element this1 idx = Inr v) \<and>
   (\<forall>v this1. Arr_get_obj this idx = (Inr v, this1) \<longrightarrow>
      m_used v \<and> ArrImpl_get_element this1 idx = Inr v) \<and>
   (\<forall>v this1. Obj_get_member this name required = (Inr (Some v), this1) \<longrightarrow>
      m_used v \<and> ArrImpl_get_element this1 (ObjImpl_find this name) = Inr v) \<and>
   (\<forall>v this1. Obj_get_arr this name = (Inr v, this1) \<longrightarrow>
      m_used v \<and> ArrImpl_get_element this1 (ObjImpl_find this name) = Inr v) \<and>
   (\<forall>v this1. Obj_get_obj this name = (Inr v, this1) \<longrightarrow>
      m_used v \<and> ArrImpl_get_element this1 (ObjImpl_find this name) = Inr v) \<and>
   flags_kept (root :: 'f ValImpl) (foldl (call_at lib) root calls) \<and>
   (\<forall>p v. subtree root p = Some v \<and> m_used v \<longrightarrow>
      (\<exists>v1. subtree (foldl (call_at lib) root calls) p = Some v1 \<and> m_used v1))"
proof (intro conjI allI impI)
  fix p v
  assume a: "subtree root p = Some v \<and> m_used v"
  from flags_kept_subtree [OF flags_kept_calls, of root p v lib calls] a
  obtain v1 where "subtree (foldl (call_at lib) root calls) p = Some v1" "flags_kept v v1"
    by blast
  with a flags_kept_used show "\<exists>v1. subtree (foldl (call_at lib) root calls) p = Some v1 \<and> m_used v1"
    by blast
qed (auto simp: flags_kept_calls dest: Arr_get_element_marks Arr_get_arr_marks Arr_get_obj_marks
      Obj_get_member_marks Obj_get_arr_marks Obj_get_obj_marks)

theorem C9_accessed_monotonic_witness:
  "ArrImpl_get_element (snd (Obj_get_member example_root ''known'' True))
       (ObjImpl_find example_root ''known'') =
     Inr (ValImpl (DInt 1) True 1 ''known'' 0) \<and>
   flags_kept example_root
     (foldl (call_at example_platform) example_root
        [([], Obj_get_member_call ''known'' True), ([1], Arr_get_obj_call 0),
         ([], ignore_members_call)]) \<and>
   (\<exists>v1. subtree
       (foldl (call_at example_platform)
          (after_call example_platform (Obj_get_member_call ''known'' True) example_root)
          [([1], Arr_get_obj_call 0), ([1, 0], Obj_get_i32_call ''b'' 0 (- 1) (Some 7))])
       [0] = Some v1 \<and> m_used v1)"
proof -
  let ?root1 = "after_call example_platform (Obj_get_member_call ''known'' True) example_root"
  let ?calls = "[([1], Arr_get_obj_call 0), ([1, 0], Obj_get_i32_call ''b'' 0 (- 1) (Some 7))]"
  have h1: "Obj_get_member example_root ''known'' True =
      (Inr (Some (ValImpl (DInt 1) True 1 ''known'' 0)),
       snd (Obj_get_member example_root ''known'' True))"
    by code_simp
  have h2: "subtree ?root1 [0] = Some (ValImpl (DInt 1) True 1 ''known'' 0) \<and>
      m_used (ValImpl (DInt 1) True 1 ''known'' 0 :: int ValImpl)"
    by code_simp
  note t1 = C9_accessed_monotonic [where this = example_root and name = "''known''"
      and required = True and root = example_root and lib = example_platform
      and calls = "[([], Obj_get_member_call ''known'' True), ([1], Arr_get_obj_call 0),
         ([], ignore_members_call)]"]
  note t2 = C9_accessed_monotonic [where root = ?root1 and lib = example_platform
      and calls = ?calls]
  from t1 h1 have a: "ArrImpl_get_element (snd (Obj_get_member example_root ''known'' True))
       (ObjImpl_find example_root ''known'') = Inr (ValImpl (DInt 1) True 1 ''known'' 0)"
    by blast
  from t1 have b: "flags_kept example_root
     (foldl (call_at example_platform) example_root
        [([], Obj_get_member_call ''known'' True), ([1], Arr_get_obj_call 0),
         ([], ignore_members_call)])"
    by blast
  from t2 h2 have c: "\<exists>v1. subtree (foldl (call_at example_platform) ?root1 ?calls) [0] = Some v1 \<and>
      m_used v1"
    by blast
  from a b c show ?thesis by blast
qed

text \<open>
  C10. For a valid position \<open>i\<close>, \<open>Obj::get_member_name(i)\<close> returns the name of the
  member; it reads the element through \<open>ArrImpl::get_element\<close> and writes nothing, so
  the object after the call is the object before it, and if the member's flag is not
  set \<open>reject_unknow_members\<close> on that object still fails with an unknown-member
  error. The other element and member accessors (\<open>get_element\<close>, \<open>get_member\<close> and the
  typed getters) leave the flag of the element they read set.
\<close>

theorem C10_get_member_name:
  "(0 \<le> idx \<and> idx < Arr_get_len this \<longrightarrow>
      Obj_get_member_name this idx = Inr (m_name (values_of (m_data this) ! nat idx))) \<and>
   (get_type this = vtObj \<and> 0 \<le> idx \<and> idx < Arr_get_len this \<and>
    \<not> m_used (values_of (m_data this) ! nat idx) \<longrightarrow>
      (\<exists>c. \<not> m_used c \<and> reject_unknow_members this = Inl (mk_ErrUnknownMember c))) \<and>
   (0 \<le> idx \<and> idx < Arr_get_len this \<longrightarrow>
      (\<forall>c \<in> set [Arr_get_element_call idx, Arr_get_bool_call idx, Arr_get_i32_call idx lo_w hi_w,
                  Arr_get_i64_call idx lo hi, Arr_get_f64_call idx flo fhi, Arr_get_str_call idx,
                  Arr_get_arr_call idx, Arr_get_obj_call idx].
         m_used (values_of (m_data (after_call lib c this)) ! nat idx))) \<and>
   (0 \<le> ObjImpl_find this name \<and> ObjImpl_find this name < Arr_get_len this \<longrightarrow>
      (\<forall>c \<in> set [Obj_get_member_call name required, Obj_get_bool_call name bdef,
                  Obj_get_i32_call name lo_w hi_w def_w, Obj_get_i64_call name lo hi def_l,
                  Obj_get_f64_call name flo fhi fdef, Obj_get_str_call name sdef,
                  Obj_get_str_enum_idx_call name str_set required,
                  Obj_get_arr_call name, Obj_get_obj_call name].
         m_used (values_of (m_data (after_call lib c this)) ! nat (ObjImpl_find this name))))"
proof (intro conjI impI)
  assume "0 \<le> idx \<and> idx < Arr_get_len this"
  then show "Obj_get_member_name this idx = Inr (m_name (values_of (m_data this) ! nat idx))"
    by (simp add: Obj_get_member_name_def ArrImpl_get_element_def Arr_get_len_def get_name_def)
next
  assume a: "get_type this = vtObj \<and> 0 \<le> idx \<and> idx < Arr_get_len this \<and>
    \<not> m_used (values_of (m_data this) ! nat idx)"
  then have "values_of (m_data this) ! nat idx \<in> set (values_of (m_data this))"
    by (simp add: Arr_get_len_def ArrImpl_get_len_def nat_less_iff)
  with a have "\<not> members_accessed this"
    by (subst members_accessed_unfold) auto
  then have "do_reject_unknow_members this \<noteq> Inr ()"
    by (simp add: reject_ok_iff(1))
  then obtain e where e: "do_reject_unknow_members this = Inl e"
    by (cases "do_reject_unknow_members this") auto
  from reject_error(1) [OF e] e
  show "\<exists>c. \<not> m_used c \<and> reject_unknow_members this = Inl (mk_ErrUnknownMember c)"
    by (auto simp: reject_unknow_members_def)
next
  assume "0 \<le> idx \<and> idx < Arr_get_len this"
  then have "m_used (values_of (m_data (snd (Arr_get_element this idx))) ! nat idx)"
    by (simp add: Arr_get_element_flag Arr_get_len_def)
  then show "\<forall>c \<in> set [Arr_get_element_call idx, Arr_get_bool_call idx, Arr_get_i32_call idx lo_w hi_w,
                  Arr_get_i64_call idx lo hi, Arr_get_f64_call idx flo fhi, Arr_get_str_call idx,
                  Arr_get_arr_call idx, Arr_get_obj_call idx].
         m_used (values_of (m_data (after_call lib c this)) ! nat idx)"
    by (simp add: snd_Arr_getters)
next
  let ?i = "ObjImpl_find this name"
  assume a: "0 \<le> ?i \<and> ?i < Arr_get_len this"
  then have "m_used (values_of (m_data (snd (Arr_get_element this ?i))) ! nat ?i)"
    by (simp add: Arr_get_element_flag Arr_get_len_def)
  with a show "\<forall>c \<in> set [Obj_get_member_call name required, Obj_get_bool_call name bdef,
                  Obj_get_i32_call name lo_w hi_w def_w, Obj_get_i64_call name lo hi def_l,
                  Obj_get_f64_call name flo fhi fdef, Obj_get_str_call name sdef,
                  Obj_get_str_enum_idx_call name str_set required,
                  Obj_get_arr_call name, Obj_get_obj_call name].
         m_used (values_of (m_data (after_call lib c this)) ! nat ?i)"
    by (simp add: snd_Obj_getters snd_Obj_get_member)
qed

theorem C10_get_member_name_witness:
  "Obj_get_member_name example_root 1 = Inr ''extra'' \<and>
   (\<exists>c. \<not> m_used c \<and> reject_unknow_members example_root = Inl (mk_ErrUnknownMember c)) \<and>
   m_used (values_of (m_data (after_call example_platform (Arr_get_str_call 1) example_root)) ! 1) \<and>
   m_used (values_of (m_data
      (after_call example_platform (Obj_get_i32_call ''known'' 0 (- 1) None) example_root)) ! 0)"
proof -
  have r: "(0::int) \<le> 1 \<and> 1 < Arr_get_len example_root"
    "get_type example_root = vtObj \<and> (0::int) \<le> 1 \<and> 1 < Arr_get_len example_root \<and>
       \<not> m_used (values_of (m_data example_root) ! nat 1)"
    "m_name (values_of (m_data example_root) ! nat 1) = ''extra''"
    "ObjImpl_find example_root ''known'' = 0"
    "(0::int) \<le> 0 \<and> 0 < Arr_get_len example_root"
    by code_simp+
  note t1 = C10_get_member_name [where this = example_root and idx = 1
      and lib = example_platform]
  note t2 = C10_get_member_name [where this = example_root and name = "''known''"
      and lo_w = 0 and hi_w = "- 1" and def_w = None and lib = example_platform]
  from t1 r(1,3) have a: "Obj_get_member_name example_root 1 = Inr ''extra''"
    by simp
  from t1 r(2) have b: "\<exists>c. \<not> m_used c \<and>
      reject_unknow_members example_root = Inl (mk_ErrUnknownMember c)"
    by blast
  from t1 r(1) have c: "m_used (values_of (m_data
      (after_call example_platform (Arr_get_str_call 1) example_root)) ! 1)"
    by simp
  from t2 r(4,5) have d: "m_used (values_of (m_data
      (after_call example_platform (Obj_get_i32_call ''known'' 0 (- 1) None) example_root)) ! 0)"
    by simp
  from a b c d show ?thesis by blast
qed

text \<open>
  C5. On a number token of the grammar followed by a text that does not go on with it,
  \<open>parse_val_num\<close> consumes the token and no more; when the token contains \<open>.\<close>, \<open>e\<close> or \<open>E\<close>
  the value is the \<open>Float\<close> that \<open>strtod\<close> reads, unless \<open>strtod\<close> reports a range error or
  stops elsewhere than at the end of the token, and when it contains none of them the
  value is the \<open>Int\<close> of the token, unless that is out of the 64-bit range. Every text
  that \<open>parse_val_num\<close> accepts is such a token, so the value of an accepted token is a
  \<open>Float\<close> if and only if the token contains \<open>.\<close>, \<open>e\<close> or \<open>E\<close>, and an \<open>Int\<close> if and only if
  it contains none.
\<close>

theorem C5_number_token:
  "(sign_part sg \<and> int_part ds \<and> frac_part fr \<and> exp_part ex \<and> token_end fr ex rest \<and>
    m_next ps = sg @ ds @ fr @ ex @ rest \<longrightarrow>
      parse_val_num lib parent ps =
        (if has_float_mark (sg @ ds @ fr @ ex) then
           (case strtod lib (c_str (m_next ps)) of
              (x, consumed, erange) \<Rightarrow>
                if erange then Inl (ErrSyntax msg_float_huge (m_line_count ps))
                else if consumed \<noteq> length (sg @ ds @ fr @ ex)
                  then Inl (ErrSyntax msg_bad_float (m_line_count ps))
                else Inr (Some (init_f64 (add_val parent ps) x, ps\<lparr>m_next := rest\<rparr>)))
         else if i64_min \<le> (if sg = ''-'' then - dec_val ds else dec_val ds) \<and>
                 (if sg = ''-'' then - dec_val ds else dec_val ds) \<le> i64_max
           then Inr (Some (init_int (add_val parent ps)
                             (word_of_int (if sg = ''-'' then - dec_val ds else dec_val ds)),
                           ps\<lparr>m_next := rest\<rparr>))
           else Inl (ErrSyntax msg_int_overflow (m_line_count ps)))) \<and>
   (parse_val_num lib parent ps = Inr (Some (v, ps_e)) \<longrightarrow>
      (\<exists>sg ds fr ex.
          sign_part sg \<and> int_part ds \<and> frac_part fr \<and> exp_part ex \<and>
          token_end fr ex (m_next ps_e) \<and>
          m_next ps = sg @ ds @ fr @ ex @ m_next ps_e \<and> ps_e = ps\<lparr>m_next := m_next ps_e\<rparr> \<and>
          (get_type v = vtF64 \<longleftrightarrow> has_float_mark (sg @ ds @ fr @ ex)) \<and>
          (get_type v = vtInt \<longleftrightarrow> \<not> has_float_mark (sg @ ds @ fr @ ex))))"
proof (intro conjI impI)
  assume "sign_part sg \<and> int_part ds \<and> frac_part fr \<and> exp_part ex \<and> token_end fr ex rest \<and>
    m_next ps = sg @ ds @ fr @ ex @ rest"
  then show "parse_val_num lib parent ps =
        (if has_float_mark (sg @ ds @ fr @ ex) then
           (case strtod lib (c_str (m_next ps)) of
              (x, consumed, erange) \<Rightarrow>
                if erange then Inl (ErrSyntax msg_float_huge (m_line_count ps))
                else if consumed \<noteq> length (sg @ ds @ fr @ ex)
                  then Inl (ErrSyntax msg_bad_float (m_line_count ps))
                else Inr (Some (init_f64 (add_val parent ps) x, ps\<lparr>m_next := rest\<rparr>)))
         else if i64_min \<le> (if sg = ''-'' then - dec_val ds else dec_val ds) \<and>
                 (if sg = ''-'' then - dec_val ds else dec_val ds) \<le> i64_max
           then Inr (Some (init_int (add_val parent ps)
                             (word_of_int (if sg = ''-'' then - dec_val ds else dec_val ds)),
                           ps\<lparr>m_next := rest\<rparr>))
           else Inl (ErrSyntax msg_int_overflow (m_line_count ps)))"
    by (intro parse_val_num_token) simp_all
next
  assume acc: "parse_val_num lib parent ps = Inr (Some (v, ps_e))"
  from parse_val_num_accepts [OF acc] obtain s d f e where
    g: "sign_part s" "int_part d" "frac_part f" "exp_part e" "token_end f e (m_next ps_e)"
      "m_next ps = s @ d @ f @ e @ m_next ps_e"
    by blast
  note r = parse_val_num_token [OF g, of lib parent]
  have t: "ps_e = ps\<lparr>m_next := m_next ps_e\<rparr> \<and>
      (get_type v = vtF64 \<longleftrightarrow> has_float_mark (s @ d @ f @ e)) \<and>
      (get_type v = vtInt \<longleftrightarrow> \<not> has_float_mark (s @ d @ f @ e))"
  proof (cases "has_float_mark (s @ d @ f @ e)")
    case True
    with r acc obtain x where "v = init_f64 (add_val parent ps) x"
      "ps_e = ps\<lparr>m_next := m_next ps_e\<rparr>"
      by (simp only: if_True split: prod.splits if_splits) auto
    with True show ?thesis by (simp add: init_f64_def ValType_defs)
  next
    case False
    with r acc obtain n where "v = init_int (add_val parent ps) n"
      "ps_e = ps\<lparr>m_next := m_next ps_e\<rparr>"
      by (simp only: if_False split: if_splits) auto
    with False show ?thesis by (simp add: init_int_def ValType_defs)
  qed
  with g show "\<exists>sg ds fr ex.
          sign_part sg \<and> int_part ds \<and> frac_part fr \<and> exp_part ex \<and>
          token_end fr ex (m_next ps_e) \<and>
          m_next ps = sg @ ds @ fr @ ex @ m_next ps_e \<and> ps_e = ps\<lparr>m_next := m_next ps_e\<rparr> \<and>
          (get_type v = vtF64 \<longleftrightarrow> has_float_mark (sg @ ds @ fr @ ex)) \<and>
          (get_type v = vtInt \<longleftrightarrow> \<not> has_float_mark (sg @ ds @ fr @ ex))"
    by blast
qed


theorem C5_number_token_witness:
  "parse_val_num example_platform None \<lparr>m_next = ''-1.5e+3'', m_line_count = 1\<rparr> =
     Inr (Some (ValImpl (DF64 7) False 1 [] (- 1), \<lparr>m_next = [], m_line_count = 1\<rparr>)) \<and>
   has_float_mark ''-1.5e+3'' \<and>
   parse_val_num example_platform None \<lparr>m_next = ''42, 1.0]'', m_line_count = 1\<rparr> =
     Inr (Some (ValImpl (DInt 42) False 1 [] (- 1),
                \<lparr>m_next = '', 1.0]'', m_line_count = 1\<rparr>)) \<and>
   \<not> has_float_mark ''42'' \<and>
   (\<exists>sg ds fr ex. sign_part sg \<and> int_part ds \<and> frac_part fr \<and> exp_part ex \<and>
      ''-1.5e+3'' = sg @ ds @ fr @ ex \<and> has_float_mark (sg @ ds @ fr @ ex)) \<and>
   (\<exists>sg ds fr ex. sign_part sg \<and> int_part ds \<and> frac_part fr \<and> exp_part ex \<and>
      ''42, 1.0]'' = sg @ ds @ fr @ ex @ '', 1.0]'' \<and> \<not> has_float_mark (sg @ ds @ fr @ ex))"
proof -
  let ?ps = "\<lparr>m_next = ''-1.5e+3'', m_line_count = 1\<rparr>"
  let ?pe = "\<lparr>m_next = [], m_line_count = 1\<rparr>"
  let ?qs = "\<lparr>m_next = ''42, 1.0]'', m_line_count = 1\<rparr>"
  let ?qe = "\<lparr>m_next = '', 1.0]'', m_line_count = 1\<rparr>"
  let ?vf = "ValImpl (DF64 7) False 1 [] (- 1) :: int ValImpl"
  let ?vi = "ValImpl (DInt 42) False 1 [] (- 1) :: int ValImpl"
  have m: "has_float_mark ''-1.5e+3''" "\<not> has_float_mark ''42''"
    by (simp_all add: has_float_mark_def)
  have g: "sign_part ''-''" "sign_part []" "int_part ''1''" "int_part ''42''"
    "frac_part ''.5''" "frac_part []" "exp_part ''e+3''" "exp_part []"
    "token_end ''.5'' ''e+3'' []" "token_end [] [] '', 1.0]''"
    by (simp_all add: sign_part_def int_part_def frac_part_def exp_part_def token_end_def
        is_digit_def NUL_def)
  have c: "c_str ''-1.5e+3'' = ''-1.5e+3''"
    by (simp add: c_str_def NUL_def)
  have a: "parse_val_num example_platform None ?ps = Inr (Some (?vf, ?pe))"
    using C5_number_token [where sg = "''-''" and ds = "''1''" and fr = "''.5''"
        and ex = "''e+3''" and rest = "[]" and ps = ?ps and lib = example_platform
        and parent = None] g m
    by (simp add: c example_platform_def init_f64_def add_val_def)
  have b: "parse_val_num example_platform None ?qs = Inr (Some (?vi, ?qe))"
    using C5_number_token [where sg = "[]" and ds = "''42''" and fr = "[]"
        and ex = "[]" and rest = "'', 1.0]''" and ps = ?qs and lib = example_platform
        and parent = None] g m
    by (simp add: dec_val_def i64_min_def i64_max_def init_int_def add_val_def)
  have d: "\<exists>sg ds fr ex. sign_part sg \<and> int_part ds \<and> frac_part fr \<and> exp_part ex \<and>
      ''-1.5e+3'' = sg @ ds @ fr @ ex \<and> has_float_mark (sg @ ds @ fr @ ex)"
    using C5_number_token [where ps = ?ps and lib = example_platform and parent = None
        and v = ?vf and ps_e = ?pe] a
    by (simp add: vtF64_def) blast
  have e: "\<exists>sg ds fr ex. sign_part sg \<and> int_part ds \<and> frac_part fr \<and> exp_part ex \<and>
      ''42, 1.0]'' = sg @ ds @ fr @ ex @ '', 1.0]'' \<and> \<not> has_float_mark (sg @ ds @ fr @ ex)"
    using C5_number_token [where ps = ?qs and lib = example_platform and parent = None
        and v = ?vi and ps_e = ?qe] b
    by (simp add: ValType_defs) blast
  from a m(1) b m(2) d e show ?thesis by blast
qed

text \<open>
  C4. \<open>parse_encoding\<close> runs after \<open>\u\<close>, and \<open>code\<close> is what \<open>parse_hex4\<close> read from
  the four hexadecimal digits. A code in \<open>[0xDC00, 0xDFFF]\<close> is the bad-UTF syntax
  error. A code in \<open>[0xD800, 0xDBFF]\<close> needs \<open>\u\<close> right behind it and four more digits
  with a value \<open>low\<close> in \<open>[0xDC00, 0xDFFF]\<close>, and is the same error otherwise; the two
  give the code point \<open>((code - 0xD800) << 10 | (low - 0xDC00)) + 0x10000\<close>. The bytes
  produced are the UTF-8 encoding of the code point, in one to four bytes.
\<close>

theorem C4_unicode_escape:
  assumes hex: "(parse_hex4 ps :: 'f Err + 32 word \<times> Parser) = Inr (code, ps_h)"
  shows
    "(0xDC00 \<le> code \<and> code \<le> 0xDFFF \<longrightarrow>
        (parse_encoding ps :: 'f Err + string \<times> Parser) =
          Inl (ErrSyntax msg_bad_utf (m_line_count ps))) \<and>
     (0xD800 \<le> code \<and> code \<le> 0xDBFF \<longrightarrow>
        (parse_encoding ps :: 'f Err + string \<times> Parser) =
          (case skip_text [CHR 0x5C, CHR ''u''] ps_h of
             None \<Rightarrow> Inl (ErrSyntax msg_bad_utf (m_line_count ps))
           | Some ps_u \<Rightarrow>
               (case (parse_hex4 ps_u :: 'f Err + 32 word \<times> Parser) of
                  Inl e \<Rightarrow> Inl (ErrSyntax msg_bad_utf (m_line_count ps))
                | Inr (low, ps_e) \<Rightarrow>
                    if 0xDC00 \<le> low \<and> low \<le> 0xDFFF
                    then Inr (utf8_bytes (surrogate_pair (unat code) (unat low)), ps_e)
                    else Inl (ErrSyntax msg_bad_utf (m_line_count ps))))) \<and>
     (\<not> (0xD800 \<le> code \<and> code \<le> 0xDFFF) \<longrightarrow>
        (parse_encoding ps :: 'f Err + string \<times> Parser) =
          Inr (utf8_bytes (unat code), ps_h))"
proof (intro conjI impI)
  note r = parse_hex4_result [OF hex]
  have plain: "encode_bytes code = utf8_bytes (unat code)"
    using r(1) by (intro encode_bytes_utf8_bytes) simp
  {
    assume "0xDC00 \<le> code \<and> code \<le> 0xDFFF"
    then show "(parse_encoding ps :: 'f Err + string \<times> Parser) =
        Inl (ErrSyntax msg_bad_utf (m_line_count ps))"
      by (simp add: parse_encoding_def hex raise_bad_utf_def r(2))
  next
    assume "\<not> (0xD800 \<le> code \<and> code \<le> 0xDFFF)"
    then have c: "(0xDC00 \<le> code \<and> code \<le> 0xDFFF) = False"
      "(0xD800 \<le> code \<and> code \<le> 0xDBFF) = False"
      by (auto simp: word_le_nat_alt)
    show "(parse_encoding ps :: 'f Err + string \<times> Parser) =
        Inr (utf8_bytes (unat code), ps_h)"
      by (simp add: parse_encoding_def hex plain c)
  next
    assume "0xD800 \<le> code \<and> code \<le> 0xDBFF"
    then have nl: "(0xDC00 \<le> code \<and> code \<le> 0xDFFF) = False"
      and high: "(0xD800 \<le> code \<and> code \<le> 0xDBFF) = True"
      and high': "0xD800 \<le> code" "code \<le> 0xDBFF"
      by (auto simp: word_le_nat_alt)
    let ?bad = "Inl (ErrSyntax msg_bad_utf (m_line_count ps)) :: 'f Err + string \<times> Parser"
    let ?rhs = "case skip_text [CHR 0x5C, CHR ''u''] ps_h of
             None \<Rightarrow> ?bad
           | Some ps_u \<Rightarrow>
               (case (parse_hex4 ps_u :: 'f Err + 32 word \<times> Parser) of
                  Inl e \<Rightarrow> ?bad
                | Inr (low, ps_e) \<Rightarrow>
                    if 0xDC00 \<le> low \<and> low \<le> 0xDFFF
                    then Inr (utf8_bytes (surrogate_pair (unat code) (unat low)), ps_e)
                    else ?bad)"
    show "(parse_encoding ps :: 'f Err + string \<times> Parser) = ?rhs"
    proof (cases "skip_text [CHR 0x5C, CHR ''u''] ps_h")
      case None
      show ?thesis
        by (simp add: parse_encoding_def hex high nl None raise_bad_utf_def r(2))
    next
      case (Some ps_u)
      note lu = skip_text_line [OF Some]
      show ?thesis
      proof (cases "parse_hex4 ps_u :: 'f Err + 32 word \<times> Parser")
        case (Inl e)
        from parse_hex4_error [OF Inl] show ?thesis
          by (simp add: parse_encoding_def hex high nl Some Inl lu r(2))
      next
        case (Inr res)
        obtain low ps_e where res: "res = (low, ps_e)" by (cases res)
        note q = parse_hex4_result [OF Inr [unfolded res]]
        show ?thesis
        proof (cases "0xDC00 \<le> low \<and> low \<le> 0xDFFF")
          case True
          note sp = unat_surrogate_pair [OF high' conjunct1 [OF True] conjunct2 [OF True]]
          have "unat ((push_bit 10 (code - 0xD800) OR (low - 0xDC00)) + 0x10000) < 0x110000"
            unfolding sp(1) by (rule sp(3))
          from encode_bytes_utf8_bytes [OF this]
          have e: "encode_bytes ((push_bit 10 (code - 0xD800) OR (low - 0xDC00)) + 0x10000) =
               utf8_bytes (surrogate_pair (unat code) (unat low))"
            unfolding sp(1) .
          from True have l: "(low < 0xDC00 \<or> low > 0xDFFF) = False"
            "(0xDC00 \<le> low \<and> low \<le> 0xDFFF) = True"
            by (auto simp: word_le_nat_alt word_less_nat_alt)
          show ?thesis
            by (simp add: parse_encoding_def hex high nl Some Inr res l e)
        next
          case False
          then have l: "(low < 0xDC00 \<or> low > 0xDFFF) = True"
            "(0xDC00 \<le> low \<and> low \<le> 0xDFFF) = False"
            by (auto simp: word_le_nat_alt word_less_nat_alt)
          show ?thesis
            by (simp add: l add: parse_encoding_def hex high nl Some Inr res raise_bad_utf_def q(2) lu
                r(2))
        qed
      qed
    qed
  }
qed

theorem C4_unicode_escape_witness:
  "(parse_encoding \<lparr>m_next = ''00e9'' @ [CHR 0x22], m_line_count = 1\<rparr> :: unit Err + string \<times> Parser) =
     Inr ([CHR 0xC3, CHR 0xA9], \<lparr>m_next = [CHR 0x22], m_line_count = 1\<rparr>) \<and>
   (parse_encoding \<lparr>m_next = ''D83D'' @ [CHR 0x5C] @ ''uDE00'' @ [CHR 0x22], m_line_count = 1\<rparr>
      :: unit Err + string \<times> Parser) =
     Inr ([CHR 0xF0, CHR 0x9F, CHR 0x98, CHR 0x80], \<lparr>m_next = [CHR 0x22], m_line_count = 1\<rparr>) \<and>
   (parse_encoding \<lparr>m_next = ''DE00'' @ [CHR 0x22], m_line_count = 1\<rparr> :: unit Err + string \<times> Parser) =
     Inl (ErrSyntax msg_bad_utf 1) \<and>
   (parse_encoding \<lparr>m_next = ''D83D'' @ [CHR 0x5C] @ ''u00e9'' @ [CHR 0x22], m_line_count = 1\<rparr>
      :: unit Err + string \<times> Parser) =
     Inl (ErrSyntax msg_bad_utf 1)"
proof -
  let ?q = "\<lparr>m_next = [CHR 0x22], m_line_count = 1\<rparr>"
  let ?p1 = "\<lparr>m_next = ''00e9'' @ [CHR 0x22], m_line_count = 1\<rparr>"
  let ?p2 = "\<lparr>m_next = ''D83D'' @ [CHR 0x5C] @ ''uDE00'' @ [CHR 0x22], m_line_count = 1\<rparr>"
  let ?h2 = "\<lparr>m_next = [CHR 0x5C] @ ''uDE00'' @ [CHR 0x22], m_line_count = 1\<rparr>"
  let ?u2 = "\<lparr>m_next = ''DE00'' @ [CHR 0x22], m_line_count = 1\<rparr>"
  let ?p4 = "\<lparr>m_next = ''D83D'' @ [CHR 0x5C] @ ''u00e9'' @ [CHR 0x22], m_line_count = 1\<rparr>"
  let ?h4 = "\<lparr>m_next = [CHR 0x5C] @ ''u00e9'' @ [CHR 0x22], m_line_count = 1\<rparr>"
  have h1: "(parse_hex4 ?p1 :: unit Err + 32 word \<times> Parser) = Inr (0xE9, ?q)"
    by code_simp
  have h2: "(parse_hex4 ?p2 :: unit Err + 32 word \<times> Parser) = Inr (0xD83D, ?h2)"
    by code_simp
  have h3: "(parse_hex4 ?u2 :: unit Err + 32 word \<times> Parser) = Inr (0xDE00, ?q)"
    by code_simp
  have h4: "(parse_hex4 ?p4 :: unit Err + 32 word \<times> Parser) = Inr (0xD83D, ?h4)"
    by code_simp
  have s2: "skip_text [CHR 0x5C, CHR ''u''] ?h2 = Some ?u2"
    by code_simp
  have s4: "skip_text [CHR 0x5C, CHR ''u''] ?h4 = Some ?p1"
    by code_simp
  have b: "utf8_bytes 0xE9 = [CHR 0xC3, CHR 0xA9]"
    "utf8_bytes (surrogate_pair 0xD83D 0xDE00) =
       [CHR 0xF0, CHR 0x9F, CHR 0x98, CHR 0x80]"
    by (simp_all add: utf8_bytes_def utf8_encode_def surrogate_pair_arith char_of_eqI)
  from C4_unicode_escape [OF h1] have a1: "(parse_encoding ?p1 :: unit Err + string \<times> Parser) =
      Inr ([CHR 0xC3, CHR 0xA9], ?q)"
    by (simp add: b)
  from C4_unicode_escape [OF h2] have a2: "(parse_encoding ?p2 :: unit Err + string \<times> Parser) =
      Inr ([CHR 0xF0, CHR 0x9F, CHR 0x98, CHR 0x80], ?q)"
    by (simp add: s2 [simplified] h3 [simplified] b)
  from C4_unicode_escape [OF h3] have a3: "(parse_encoding ?u2 :: unit Err + string \<times> Parser) =
      Inl (ErrSyntax msg_bad_utf 1)"
    by simp
  from C4_unicode_escape [OF h4] have a4: "(parse_encoding ?p4 :: unit Err + string \<times> Parser) =
      Inl (ErrSyntax msg_bad_utf 1)"
    by (simp add: s4 [simplified] h1 [simplified])
  from a1 a2 a3 a4 show ?thesis by simp
qed

end
